theory Spec2Isabelle
  imports Complex_Main "HOL-Library.Sublist"
begin

section \<open>The throttling queue of services/rateLimit.ts\<close>

text \<open>
  \<^verbatim>\<open>ThrottleQueue\<close> keeps three private fields (\<^verbatim>\<open>running\<close>, \<^verbatim>\<open>lastStartAt\<close>,
  \<^verbatim>\<open>queue\<close>) and two constructor parameters (\<^verbatim>\<open>concurrency\<close>, \<^verbatim>\<open>minTimeMs\<close>).
  JavaScript runs one synchronous block at a time, and \<^verbatim>\<open>pump\<close> is suspended only at
  its two \<^verbatim>\<open>await\<close>s. The model therefore has, besides the fields, the two sets of
  suspended activations of \<^verbatim>\<open>pump\<close>:
  \<^item> \<open>sleeping\<close>: activations inside \<^verbatim>\<open>await sleep(waitMs)\<close>, each with its job and the
    clock reading before which its timer cannot fire (\<open>now + waitMs\<close>);
  \<^item> \<open>executing\<close>: activations inside \<^verbatim>\<open>await job.fn()\<close>.

  Jobs are numbered in the order of the calls of \<^verbatim>\<open>schedule\<close> (\<open>nextJob\<close> is the number
  of calls so far). Four further fields only record what happened and are never read by
  the modelled code: \<open>clock\<close> (the reading of \<^verbatim>\<open>Date.now()\<close> in the last block that
  ran), \<open>dispatched\<close> (jobs in the order \<^verbatim>\<open>queue.shift()\<close> returned them), \<open>started\<close>
  (jobs in the order \<^verbatim>\<open>job.fn()\<close> was called, each with the value stored in
  \<^verbatim>\<open>lastStartAt\<close> just before the call) and \<open>settled\<close> (jobs in the order their
  promise was resolved, \<open>True\<close>, or rejected, \<open>False\<close>).

  Times and \<^verbatim>\<open>minTimeMs\<close> are whole milliseconds (\<^verbatim>\<open>Date.now()\<close> returns
  integers); \<^verbatim>\<open>concurrency\<close> is any finite number, since line 35 only compares the
  counter with it; one synchronous block reads one clock value.
\<close>

type_synonym job = nat

record throttle_queue =
  concurrency :: real
  minTimeMs :: int
  running :: int
  lastStartAt :: int
  queue :: "job list"
  sleeping :: "(job \<times> int) list"
  executing :: "job list"
  nextJob :: nat
  clock :: int
  dispatched :: "job list"
  started :: "(job \<times> int) list"
  settled :: "(job \<times> bool) list"

text \<open>The constructor: it stores its two arguments and has no other statement.\<close>

definition new_queue :: "real \<Rightarrow> int \<Rightarrow> throttle_queue" where
  "new_queue c d =
     \<lparr>concurrency = c, minTimeMs = d, running = 0, lastStartAt = 0, queue = [],
      sleeping = [], executing = [], nextJob = 0, clock = 0, dispatched = [],
      started = [], settled = []\<rparr>"

text \<open>Line 43: \<^verbatim>\<open>Math.max(0, this.minTimeMs - (now - this.lastStartAt))\<close>.\<close>

definition waitMs :: "throttle_queue \<Rightarrow> int \<Rightarrow> int" where
  "waitMs q now = max 0 (minTimeMs q - (now - lastStartAt q))"

text \<open>Lines 45 and 47: \<^verbatim>\<open>this.lastStartAt = Date.now()\<close>, then \<^verbatim>\<open>job.fn()\<close> is called.\<close>

definition begin_job :: "int \<Rightarrow> job \<Rightarrow> throttle_queue \<Rightarrow> throttle_queue" where
  "begin_job now j q =
     q\<lparr>lastStartAt := now, executing := executing q @ [j], started := started q @ [(j, now)]\<rparr>"

text \<open>
  \<^verbatim>\<open>pump\<close> up to its first \<^verbatim>\<open>await\<close> (lines 35 to 47): the two early returns, the
  increment of \<^verbatim>\<open>running\<close>, and then either the suspension in \<^verbatim>\<open>sleep\<close> or, when
  \<^verbatim>\<open>waitMs\<close> is not positive, the start of the job in the same block.
\<close>

definition pump :: "int \<Rightarrow> throttle_queue \<Rightarrow> throttle_queue" where
  "pump now q =
     (if real_of_int (running q) \<ge> concurrency q then q
      else case queue q of
        [] \<Rightarrow> q
      | j # rest \<Rightarrow>
          let q1 = q\<lparr>queue := rest, running := running q + 1, dispatched := dispatched q @ [j]\<rparr>;
              w = waitMs q1 now
          in if w > 0 then q1\<lparr>sleeping := sleeping q1 @ [(j, now + w)]\<rparr>
             else begin_job now j q1)"

text \<open>
  The blocks that can run, each with the clock reading it sees:
  \<^item> \<open>Schedule now\<close>: a call of \<^verbatim>\<open>schedule\<close> (lines 29 and 30);
  \<^item> \<open>Wake j now\<close>: the timer of the activation sleeping for job \<open>j\<close> fires and the
    activation goes on from line 45; a timer does not fire before its delay has passed;
  \<^item> \<open>Settle j ok now\<close>: the promise returned by \<^verbatim>\<open>job.fn()\<close> of the running job \<open>j\<close>
    is fulfilled (\<open>ok\<close>) or rejected, and the activation goes on with
    \<^verbatim>\<open>job.resolve\<close> or \<^verbatim>\<open>job.reject\<close> and the \<^verbatim>\<open>finally\<close> block (lines 48 to 54).
  A block that cannot run in the state (no such activation, or a clock that went
  backwards) gives \<open>None\<close>.
\<close>

datatype event = Schedule int | Wake job int | Settle job bool int

fun step :: "throttle_queue \<Rightarrow> event \<Rightarrow> throttle_queue option" where
  "step q (Schedule now) =
     (if now < clock q then None
      else Some (pump now (q\<lparr>queue := queue q @ [nextJob q], nextJob := Suc (nextJob q),
                             clock := now\<rparr>)))"
| "step q (Wake j now) =
     (case map_of (sleeping q) j of
        None \<Rightarrow> None
      | Some due \<Rightarrow>
          if now < due \<or> now < clock q then None
          else Some (begin_job now j (q\<lparr>sleeping := remove1 (j, due) (sleeping q),
                                         clock := now\<rparr>)))"
| "step q (Settle j ok now) =
     (if j \<notin> set (executing q) \<or> now < clock q then None
      else Some (pump now (q\<lparr>executing := remove1 j (executing q),
                             settled := settled q @ [(j, ok)],
                             running := running q - 1, clock := now\<rparr>)))"

fun run :: "throttle_queue \<Rightarrow> event list \<Rightarrow> throttle_queue option" where
  "run q [] = Some q"
| "run q (e # es) = (case step q e of None \<Rightarrow> None | Some q' \<Rightarrow> run q' es)"

text \<open>The gaps between consecutive entries of a list of start times are all at least \<open>d\<close>.\<close>

fun paced :: "int \<Rightarrow> int list \<Rightarrow> bool" where
  "paced d (t1 # t2 # ts) = (d \<le> t2 - t1 \<and> paced d (t2 # ts))"
| "paced d ts = True"


section \<open>Strings, numbers and the regular expressions of rateLimit.ts\<close>

text \<open>
  Messages are strings of ASCII characters. \<^verbatim>\<open>\w\<close> is a letter, a digit or the
  underscore; \<^verbatim>\<open>\s\<close> is one of the six ASCII white-space characters;
  \<^verbatim>\<open>toLowerCase\<close> and the flag \<^verbatim>\<open>i\<close> change the letters A to Z only. An upper-case
  letter has bit 5 clear and its lower-case letter is the same byte with bit 5 set
  (the code plus 32).
\<close>

definition is_digit :: "char \<Rightarrow> bool" where
  "is_digit c \<longleftrightarrow> 48 \<le> (of_char c :: nat) \<and> (of_char c :: nat) \<le> 57"

definition is_upper :: "char \<Rightarrow> bool" where
  "is_upper c \<longleftrightarrow> 65 \<le> (of_char c :: nat) \<and> (of_char c :: nat) \<le> 90"

definition is_lower :: "char \<Rightarrow> bool" where
  "is_lower c \<longleftrightarrow> 97 \<le> (of_char c :: nat) \<and> (of_char c :: nat) \<le> 122"

definition is_word_char :: "char \<Rightarrow> bool" where
  "is_word_char c \<longleftrightarrow> is_digit c \<or> is_upper c \<or> is_lower c \<or> c = CHR ''_''"

definition is_space :: "char \<Rightarrow> bool" where
  "is_space c \<longleftrightarrow> (of_char c :: nat) \<in> {9, 10, 11, 12, 13, 32}"

fun to_lower :: "char \<Rightarrow> char" where
  "to_lower (Char b0 b1 b2 b3 b4 b5 b6 b7) =
     (if is_upper (Char b0 b1 b2 b3 b4 b5 b6 b7) then Char b0 b1 b2 b3 b4 True b6 b7
      else Char b0 b1 b2 b3 b4 b5 b6 b7)"

definition toLowerCase :: "string \<Rightarrow> string" where
  "toLowerCase s = map to_lower s"

text \<open>\<^verbatim>\<open>text.includes(pat)\<close>: \<open>pat\<close> occurs in \<open>text\<close> at some position.\<close>

fun str_includes :: "string \<Rightarrow> string \<Rightarrow> bool" where
  "str_includes [] pat = (pat = [])"
| "str_includes (c # cs) pat = (prefix pat (c # cs) \<or> str_includes cs pat)"

text \<open>
  The values of type \<^verbatim>\<open>number\<close> that the delay computation meets: a finite number,
  the two infinities and \<^verbatim>\<open>NaN\<close>. A finite result is kept exact (the rounding of a
  double to 53 bits is not modelled), and \<open>js_fin\<close> turns it into an infinity when it is
  too large for a double, that is from \<open>2 ^ 1024 - 2 ^ 970\<close> on, half a unit in the last
  place above the largest double. Multiplication, addition, \<^verbatim>\<open>Math.max\<close>,
  \<^verbatim>\<open>Math.min\<close>, \<^verbatim>\<open>Math.round\<close> and \<^verbatim>\<open>Math.pow(2, k)\<close> for a whole \<open>k \<ge> 0\<close> follow
  the language on the infinities and on \<^verbatim>\<open>NaN\<close>.
\<close>

datatype jsnum = Num real | PosInf | NegInf | NaN

definition overflow_bound :: real where
  "overflow_bound = 2 ^ 1024 - 2 ^ 970"

definition js_fin :: "real \<Rightarrow> jsnum" where
  "js_fin x =
     (if overflow_bound \<le> x then PosInf
      else if x \<le> - overflow_bound then NegInf
      else Num x)"

fun js_mul :: "jsnum \<Rightarrow> jsnum \<Rightarrow> jsnum" where
  "js_mul (Num x) (Num y) = js_fin (x * y)"
| "js_mul NaN b = NaN"
| "js_mul a NaN = NaN"
| "js_mul (Num x) PosInf = (if x = 0 then NaN else if 0 < x then PosInf else NegInf)"
| "js_mul (Num x) NegInf = (if x = 0 then NaN else if 0 < x then NegInf else PosInf)"
| "js_mul PosInf (Num y) = (if y = 0 then NaN else if 0 < y then PosInf else NegInf)"
| "js_mul NegInf (Num y) = (if y = 0 then NaN else if 0 < y then NegInf else PosInf)"
| "js_mul PosInf PosInf = PosInf"
| "js_mul PosInf NegInf = NegInf"
| "js_mul NegInf PosInf = NegInf"
| "js_mul NegInf NegInf = PosInf"

fun js_add :: "jsnum \<Rightarrow> jsnum \<Rightarrow> jsnum" where
  "js_add (Num x) (Num y) = js_fin (x + y)"
| "js_add NaN b = NaN"
| "js_add a NaN = NaN"
| "js_add PosInf NegInf = NaN"
| "js_add NegInf PosInf = NaN"
| "js_add PosInf b = PosInf"
| "js_add a PosInf = PosInf"
| "js_add NegInf b = NegInf"
| "js_add a NegInf = NegInf"

fun js_max :: "jsnum \<Rightarrow> jsnum \<Rightarrow> jsnum" where
  "js_max (Num x) (Num y) = Num (max x y)"
| "js_max NaN b = NaN"
| "js_max a NaN = NaN"
| "js_max PosInf b = PosInf"
| "js_max a PosInf = PosInf"
| "js_max NegInf b = b"
| "js_max a NegInf = a"

fun js_min :: "jsnum \<Rightarrow> jsnum \<Rightarrow> jsnum" where
  "js_min (Num x) (Num y) = Num (min x y)"
| "js_min NaN b = NaN"
| "js_min a NaN = NaN"
| "js_min NegInf b = NegInf"
| "js_min a NegInf = NegInf"
| "js_min PosInf b = b"
| "js_min a PosInf = a"

fun js_round :: "jsnum \<Rightarrow> jsnum" where
  "js_round (Num x) = Num (real_of_int \<lfloor>x + 1 / 2\<rfloor>)"
| "js_round a = a"

definition js_pow2 :: "nat \<Rightarrow> jsnum" where
  "js_pow2 k = js_fin (2 ^ k)"

text \<open>
  \<^verbatim>\<open>Number(m[1])\<close> for a group that \<^verbatim>\<open>[0-9]+\<close> matched: the value of the decimal
  digits, \<^verbatim>\<open>Infinity\<close> when it is too large for a double.
\<close>

definition digits_value :: "string \<Rightarrow> int" where
  "digits_value ds = foldl (\<lambda>n c. 10 * n + (of_char c - 48)) 0 ds"

definition js_number :: "string \<Rightarrow> jsnum" where
  "js_number ds = js_fin (real_of_int (digits_value ds))"

text \<open>
  The pieces of the three patterns of \<^verbatim>\<open>parseRetryDelayMs\<close>, each matching at the
  start of its argument: \<open>match_ci\<close> matches literal text without regard to case and
  returns what follows it; \<open>digits_then\<close> is \<^verbatim>\<open>([0-9]+)\<close>, the longest run of digits
  (a shorter run would be followed by a digit, which neither \<^verbatim>\<open>\s*s\<close> nor the end of
  the third pattern needs, so backtracking finds nothing else for the first two and the
  leftmost-longest group for the third). \<^verbatim>\<open>\s*\<close> is \<open>dropWhile is_space\<close>, for the
  same reason. \<open>search\<close> tries the positions of the string from left to right, as
  \<^verbatim>\<open>String.prototype.match\<close> does, and returns the group of the first match.
\<close>

fun match_ci :: "string \<Rightarrow> string \<Rightarrow> string option" where
  "match_ci [] s = Some s"
| "match_ci (p # ps) [] = None"
| "match_ci (p # ps) (c # cs) = (if to_lower c = to_lower p then match_ci ps cs else None)"

definition digits_then :: "string \<Rightarrow> (string \<times> string) option" where
  "digits_then s =
     (let ds = takeWhile is_digit s
      in if ds = [] then None else Some (ds, dropWhile is_digit s))"

fun search :: "(string \<Rightarrow> 'a option) \<Rightarrow> string \<Rightarrow> 'a option" where
  "search re [] = re []"
| "search re (c # cs) = (case re (c # cs) of Some g \<Rightarrow> Some g | None \<Rightarrow> search re cs)"

text \<open>Line 151: \<^verbatim>\<open>/RetryDelay:\s*([0-9]+)\s*s/i\<close>.\<close>

definition retryDelay_re :: "string \<Rightarrow> string option" where
  "retryDelay_re s =
     (case match_ci ''RetryDelay:'' s of None \<Rightarrow> None | Some r \<Rightarrow>
        (case digits_then (dropWhile is_space r) of None \<Rightarrow> None | Some (ds, r') \<Rightarrow>
           (case match_ci ''s'' (dropWhile is_space r') of None \<Rightarrow> None
            | Some _ \<Rightarrow> Some ds)))"

text \<open>Line 155: \<^verbatim>\<open>/retry\s*after\s*([0-9]+)\s*s/i\<close>.\<close>

definition retry_after_re :: "string \<Rightarrow> string option" where
  "retry_after_re s =
     (case match_ci ''retry'' s of None \<Rightarrow> None | Some r \<Rightarrow>
        (case match_ci ''after'' (dropWhile is_space r) of None \<Rightarrow> None | Some r1 \<Rightarrow>
           (case digits_then (dropWhile is_space r1) of None \<Rightarrow> None | Some (ds, r') \<Rightarrow>
              (case match_ci ''s'' (dropWhile is_space r') of None \<Rightarrow> None
               | Some _ \<Rightarrow> Some ds))))"

text \<open>Line 158: \<^verbatim>\<open>/retryAfter:\s*([0-9]+)/i\<close>.\<close>

definition retryAfter_re :: "string \<Rightarrow> string option" where
  "retryAfter_re s =
     (case match_ci ''retryAfter:'' s of None \<Rightarrow> None | Some r \<Rightarrow>
        (case digits_then (dropWhile is_space r) of None \<Rightarrow> None
         | Some (ds, r') \<Rightarrow> Some ds))"

definition parseRetryDelayMs :: "string \<Rightarrow> jsnum option" where
  "parseRetryDelayMs message =
     (case search retryDelay_re message of
        Some ds \<Rightarrow> Some (js_mul (js_number ds) (Num 1000))
      | None \<Rightarrow>
          (case search retry_after_re message of
             Some ds \<Rightarrow> Some (js_mul (js_number ds) (Num 1000))
           | None \<Rightarrow>
               (case search retryAfter_re message of
                  Some ds \<Rightarrow> Some (js_number ds)
                | None \<Rightarrow> None)))"

text \<open>
  Line 144: \<^verbatim>\<open>/\b(429|500|502|503|504)\b/\<close>. \<open>status_re\<close> is the group and the
  closing \<^verbatim>\<open>\b\<close> at the start of its argument: after a digit, \<^verbatim>\<open>\b\<close> holds at the end
  of the string or before a character that is not a word character. The opening
  \<^verbatim>\<open>\b\<close> holds before a digit when the character before it is not a word character
  or there is none: \<open>search_status\<close> carries whether the previous character was one.
\<close>

definition word_end :: "string \<Rightarrow> bool" where
  "word_end s = (case s of [] \<Rightarrow> True | c # _ \<Rightarrow> \<not> is_word_char c)"

definition status_re :: "string \<Rightarrow> int option" where
  "status_re s =
     (if prefix ''429'' s \<and> word_end (drop 3 s) then Some 429
      else if prefix ''500'' s \<and> word_end (drop 3 s) then Some 500
      else if prefix ''502'' s \<and> word_end (drop 3 s) then Some 502
      else if prefix ''503'' s \<and> word_end (drop 3 s) then Some 503
      else if prefix ''504'' s \<and> word_end (drop 3 s) then Some 504
      else None)"

fun search_status :: "bool \<Rightarrow> string \<Rightarrow> int option" where
  "search_status w [] = None"
| "search_status w (c # cs) =
     (case (if w then None else status_re (c # cs)) of
        Some n \<Rightarrow> Some n
      | None \<Rightarrow> search_status (is_word_char c) cs)"

section \<open>withRetry\<close>

text \<open>
  What \<^verbatim>\<open>withRetry\<close> and its helpers read of a caught value \<^verbatim>\<open>err\<close>:
  \<^item> \<open>err_status\<close>, \<open>err_code\<close>, \<open>err_response_status\<close>: the value of \<^verbatim>\<open>err.status\<close>,
    \<^verbatim>\<open>err.code\<close>, \<^verbatim>\<open>err.response.status\<close> when it is a number, \<open>None\<close> otherwise
    (line 132 compares with \<^verbatim>\<open>===\<close>, which only a number passes);
  \<^item> \<open>err_message\<close>: \<^verbatim>\<open>err.message\<close> as a string, \<open>None\<close> when it is \<^verbatim>\<open>null\<close> or
    \<^verbatim>\<open>undefined\<close> (also when \<^verbatim>\<open>err\<close> itself is);
  \<^item> \<open>err_string\<close>: \<^verbatim>\<open>String(err)\<close>.
  Status codes are whole numbers.
\<close>

record failure =
  err_status :: "int option"
  err_code :: "int option"
  err_response_status :: "int option"
  err_message :: "string option"
  err_string :: string

definition extractStatusCode :: "failure \<Rightarrow> int option" where
  "extractStatusCode err =
     (case err_status err of Some s \<Rightarrow> Some s | None \<Rightarrow>
        (case err_code err of Some c \<Rightarrow> Some c | None \<Rightarrow>
           (case err_response_status err of Some r \<Rightarrow> Some r | None \<Rightarrow>
              search_status False (case err_message err of Some m \<Rightarrow> m | None \<Rightarrow> []))))"

text \<open>Line 86: \<^verbatim>\<open>String(err?.message ?? err)\<close>.\<close>

definition error_text :: "failure \<Rightarrow> string" where
  "error_text err = (case err_message err of Some m \<Rightarrow> m | None \<Rightarrow> err_string err)"

definition shouldRetry :: "int option \<Rightarrow> string \<Rightarrow> failure \<Rightarrow> bool" where
  "shouldRetry status msg err =
     (let text = toLowerCase msg in
      if status = Some 429 then True
      else if str_includes text ''resource_exhausted'' then True
      else if str_includes text ''quota'' then True
      else if str_includes text ''rate limit'' then True
      else if str_includes text ''network'' \<or> str_includes text ''fetch'' then True
      else if str_includes text ''timeout'' then True
      else if err_response_status err = Some 429 then True
      else False)"

text \<open>
  The options object: a field is \<open>None\<close> when the caller left it out, and lines 74 to 77
  put the default in its place. The options are finite numbers and \<^verbatim>\<open>maxRetries\<close> is
  a whole number; the delays computed from them and from the message are \<open>jsnum\<close>
  values.
\<close>

record retry_opts =
  opt_maxRetries :: "int option"
  opt_baseDelayMs :: "real option"
  opt_maxDelayMs :: "real option"
  opt_jitterRatio :: "real option"

definition maxRetries :: "retry_opts \<Rightarrow> int" where
  "maxRetries opts = (case opt_maxRetries opts of Some n \<Rightarrow> n | None \<Rightarrow> 5)"

definition baseDelayMs :: "retry_opts \<Rightarrow> real" where
  "baseDelayMs opts = (case opt_baseDelayMs opts of Some d \<Rightarrow> d | None \<Rightarrow> 1200)"

definition maxDelayMs :: "retry_opts \<Rightarrow> real" where
  "maxDelayMs opts = (case opt_maxDelayMs opts of Some d \<Rightarrow> d | None \<Rightarrow> 20000)"

definition jitterRatio :: "retry_opts \<Rightarrow> real" where
  "jitterRatio opts = (case opt_jitterRatio opts of Some r \<Rightarrow> r | None \<Rightarrow> 0.25)"

text \<open>Lines 95 to 101: the delay before jitter, for the incremented \<open>attempt\<close>.\<close>

definition base_delay :: "retry_opts \<Rightarrow> string \<Rightarrow> nat \<Rightarrow> jsnum" where
  "base_delay opts msg attempt =
     (let serverDelayMs = parseRetryDelayMs msg;
          exp = js_min (Num (maxDelayMs opts))
                  (js_mul (Num (baseDelayMs opts)) (js_pow2 (attempt - 1)))
      in js_max (case serverDelayMs of Some d \<Rightarrow> d | None \<Rightarrow> Num 0) exp)"

text \<open>
  Lines 104 and 105; \<open>random\<close> is the value \<^verbatim>\<open>Math.random()\<close> returned, a finite
  number, so that \<^verbatim>\<open>Math.random() * 2 - 1\<close> is one too.
\<close>

definition jittered :: "retry_opts \<Rightarrow> jsnum \<Rightarrow> real \<Rightarrow> jsnum" where
  "jittered opts delayMs random =
     (let jitter = js_mul (js_mul delayMs (Num (jitterRatio opts))) (Num (random * 2 - 1))
      in js_max (Num 250) (js_round (js_add delayMs jitter)))"

text \<open>The claimed shape of a final delay: a whole number of at least 250.\<close>

fun whole_at_least_250 :: "jsnum \<Rightarrow> bool" where
  "whole_at_least_250 (Num x) = (250 \<le> x \<and> x \<in> \<int>)"
| "whole_at_least_250 a = False"

text \<open>
  The \<^verbatim>\<open>catch\<close> block (lines 85 to 105) up to the delay: \<open>Throw\<close> is \<^verbatim>\<open>throw err\<close>,
  \<open>Retry attempt delayMs\<close> goes on to the observer and the sleep with the incremented
  counter and the final delay.
\<close>

datatype decision = Throw | Retry nat jsnum

definition on_failure :: "retry_opts \<Rightarrow> nat \<Rightarrow> real \<Rightarrow> failure \<Rightarrow> decision" where
  "on_failure opts attempt random err =
     (let status = extractStatusCode err;
          msg = error_text err
      in if \<not> shouldRetry status msg err then Throw
         else let attempt = attempt + 1
              in if int attempt > maxRetries opts then Throw
                 else Retry attempt (jittered opts (base_delay opts msg attempt) random))"

text \<open>
  The operation is given by what its calls do: \<open>f n\<close> is the way the promise of call
  number \<open>n\<close> (from 0) settles, and \<open>random n\<close> is the value \<^verbatim>\<open>Math.random()\<close> returns
  after that call. The result of \<^verbatim>\<open>withRetry\<close> is the way its own promise settles
  (\<open>Inl err\<close>: rejected with \<open>err\<close>), the number of calls of the operation, and one entry
  \<open>(attempt, delayMs, err)\<close> for each pass through lines 107 to 109, where the observer,
  when there is one, gets the entry and \<^verbatim>\<open>sleep(delayMs)\<close> is awaited. The observer
  is taken not to throw.
\<close>

datatype 'a settled = Fulfilled 'a | Rejected failure

type_synonym retry_info = "nat \<times> jsnum \<times> failure"

record 'a retry_result =
  outcome :: "failure + 'a"
  calls :: nat
  retries :: "retry_info list"

function retry_loop ::
  "retry_opts \<Rightarrow> (nat \<Rightarrow> 'a settled) \<Rightarrow> (nat \<Rightarrow> real) \<Rightarrow> nat \<Rightarrow> nat \<Rightarrow> retry_info list
     \<Rightarrow> 'a retry_result"
where
  "retry_loop opts f random attempt n seen =
     (case f n of
        Fulfilled v \<Rightarrow> \<lparr>outcome = Inr v, calls = Suc n, retries = seen\<rparr>
      | Rejected err \<Rightarrow>
          (case on_failure opts attempt (random n) err of
             Throw \<Rightarrow> \<lparr>outcome = Inl err, calls = Suc n, retries = seen\<rparr>
           | Retry attempt' delayMs \<Rightarrow>
               retry_loop opts f random attempt' (Suc n) (seen @ [(attempt', delayMs, err)])))"
  by pat_completeness auto
termination
  by (relation "measure (\<lambda>(opts, f, random, attempt, n, seen).
                   nat (maxRetries opts + 1 - int attempt))")
     (auto simp: on_failure_def Let_def split: if_splits)

definition withRetry ::
  "(nat \<Rightarrow> 'a settled) \<Rightarrow> retry_opts \<Rightarrow> (nat \<Rightarrow> real) \<Rightarrow> 'a retry_result" where
  "withRetry f opts random = retry_loop opts f random 0 0 []"

text \<open>Values used in the examples: no option given, and \<^verbatim>\<open>new Error(m)\<close>.\<close>

definition no_opts :: retry_opts where
  "no_opts = \<lparr>opt_maxRetries = None, opt_baseDelayMs = None, opt_maxDelayMs = None,
              opt_jitterRatio = None\<rparr>"

definition plain_error :: "string \<Rightarrow> failure" where
  "plain_error m = \<lparr>err_status = None, err_code = None, err_response_status = None,
                    err_message = Some m, err_string = ''Error: '' @ m\<rparr>"

definition advised_error :: failure where
  "advised_error = \<lparr>err_status = Some 429, err_code = None, err_response_status = None,
                     err_message = Some ''RetryDelay: 14s'',
                     err_string = ''Error: RetryDelay: 14s''\<rparr>"

text \<open>
  A 429 error whose message advises a delay of 400 digits:
  \<^verbatim>\<open>"RetryDelay: " + "9".repeat(400) + "s"\<close>.
\<close>

definition nines :: string where
  "nines = replicate 400 (CHR ''9'')"

definition huge_hint :: string where
  "huge_hint = ''RetryDelay: '' @ nines @ ''s''"

definition overflow_error :: failure where
  "overflow_error = \<lparr>err_status = Some 429, err_code = None, err_response_status = None,
                      err_message = Some huge_hint, err_string = ''Error: '' @ huge_hint\<rparr>"

definition server_error :: failure where
  "server_error = plain_error ''Server error (500)''"

section \<open>Invariants of the queue\<close>

text \<open>
  \<open>slots_inv\<close>: \<^verbatim>\<open>running\<close> counts the suspended activations and stays within the
  bound rounded up to a whole number (within 0 for a negative bound); every started job
  is running or settled, and only started jobs run or settle.
\<close>

definition slots_inv :: "throttle_queue \<Rightarrow> bool" where
  "slots_inv q \<longleftrightarrow>
     running q = int (length (sleeping q)) + int (length (executing q)) \<and>
     running q \<le> max 0 \<lceil>concurrency q\<rceil> \<and>
     length (started q) = length (executing q) + length (settled q) \<and>
     set (executing q) \<subseteq> fst ` set (started q) \<and>
     fst ` set (settled q) \<subseteq> fst ` set (started q)"

text \<open>\<open>released_inv\<close>: once more jobs have started than the bound allows, one of the first has settled.\<close>

definition released_inv :: "throttle_queue \<Rightarrow> bool" where
  "released_inv q \<longleftrightarrow>
     (nat \<lceil>concurrency q\<rceil> < length (started q) \<longrightarrow>
        (\<exists>j \<in> fst ` set (settled q).
            j \<in> fst ` set (take (nat \<lceil>concurrency q\<rceil>) (started q))))"

text \<open>\<open>fifo_inv\<close>: the order of dispatch, and with one slot the order of the starts.\<close>

definition fifo_inv :: "throttle_queue \<Rightarrow> bool" where
  "fifo_inv q \<longleftrightarrow>
     dispatched q @ queue q = [0..<nextJob q] \<and>
     (concurrency q = 1 \<longrightarrow> map fst (started q) @ map fst (sleeping q) = dispatched q)"

text \<open>
  \<open>pace_inv\<close>, for at most one slot: \<^verbatim>\<open>lastStartAt\<close> is the time of the last start,
  a sleeping activation wakes no earlier than \<^verbatim>\<open>minTimeMs\<close> after it, and the starts
  so far are paced.
\<close>

definition pace_inv :: "throttle_queue \<Rightarrow> bool" where
  "pace_inv q \<longleftrightarrow>
     (started q \<noteq> [] \<longrightarrow> lastStartAt q = snd (last (started q))) \<and>
     (\<forall>(j, due) \<in> set (sleeping q). lastStartAt q + minTimeMs q \<le> due) \<and>
     paced (minTimeMs q) (map snd (started q))"

text \<open>\<open>stalled_inv\<close>, for a bound that is not positive: nothing was ever taken from the queue.\<close>

definition stalled_inv :: "throttle_queue \<Rightarrow> bool" where
  "stalled_inv q \<longleftrightarrow>
     running q = 0 \<and> sleeping q = [] \<and> executing q = [] \<and> dispatched q = [] \<and>
     started q = [] \<and> queue q = [0..<nextJob q]"

section \<open>Properties of the queue\<close>

lemma run_invariant:
  assumes "run q es = Some q'" and "P q"
    and "\<And>q e q'. P q \<Longrightarrow> step q e = Some q' \<Longrightarrow> P q'"
  shows "P q'"
  using assms(1,2)
proof (induction es arbitrary: q)
  case Nil
  then show ?case by simp
next
  case (Cons e es)
  then show ?case by (auto split: option.splits intro: assms(3))
qed

lemma length_remove1_Suc: "x \<in> set xs \<Longrightarrow> length xs = Suc (length (remove1 x xs))"
  by (induction xs) auto

lemma free_slot_ceiling:
  assumes "real_of_int r < c"
  shows "r + 1 \<le> max 0 \<lceil>c\<rceil>"
proof -
  note assms
  also have "c \<le> real_of_int \<lceil>c\<rceil>" by (rule le_of_int_ceiling)
  finally have "r < \<lceil>c\<rceil>" by simp
  then show ?thesis by simp
qed

lemma pump_slots_inv:
  assumes "slots_inv q"
  shows "slots_inv (pump now q)"
proof (cases "real_of_int (running q) \<ge> concurrency q \<or> queue q = []")
  case True
  then show ?thesis using assms by (auto simp: pump_def)
next
  case False
  then obtain j rest where jr: "queue q = j # rest"
    and free: "real_of_int (running q) < concurrency q"
    by (cases "queue q") auto
  from free have "running q + 1 \<le> max 0 \<lceil>concurrency q\<rceil>" by (rule free_slot_ceiling)
  then show ?thesis using assms jr free
    by (auto simp: slots_inv_def pump_def begin_job_def Let_def)
qed

lemma step_slots_inv: "slots_inv q \<Longrightarrow> step q e = Some q' \<Longrightarrow> slots_inv q'"
proof (cases e)
  case (Schedule now)
  assume "slots_inv q" "step q e = Some q'"
  moreover have "slots_inv (q\<lparr>queue := queue q @ [nextJob q], nextJob := Suc (nextJob q), clock := now\<rparr>)"
    using \<open>slots_inv q\<close> by (simp add: slots_inv_def)
  ultimately show ?thesis using Schedule by (auto split: if_splits intro: pump_slots_inv)
next
  case (Wake j now)
  assume a: "slots_inv q" "step q e = Some q'"
  then obtain due where d: "map_of (sleeping q) j = Some due" 
     and q': "q' = begin_job now j (q\<lparr>sleeping := remove1 (j, due) (sleeping q), clock := now\<rparr>)"
    using Wake by (auto split: option.splits if_splits)
  from d have "(j, due) \<in> set (sleeping q)" by (rule map_of_SomeD)
  then have "length (sleeping q) = Suc (length (remove1 (j, due) (sleeping q)))"
    by (rule length_remove1_Suc)
  then show ?thesis using a(1) unfolding q' by (auto simp: slots_inv_def begin_job_def)
next
  case (Settle j ok now)
  assume a: "slots_inv q" "step q e = Some q'"
  then have j: "j \<in> set (executing q)" 
     and q': "q' = pump now (q\<lparr>executing := remove1 j (executing q),
                             settled := settled q @ [(j, ok)],
                             running := running q - 1, clock := now\<rparr>)"
    using Settle by (auto split: if_splits)
  from j have "length (executing q) = Suc (length (remove1 j (executing q)))"
    by (rule length_remove1_Suc)
  moreover have "set (remove1 j (executing q)) \<subseteq> set (executing q)" by (rule set_remove1_subset)
  ultimately have "slots_inv (q\<lparr>executing := remove1 j (executing q),
                             settled := settled q @ [(j, ok)],
                             running := running q - 1, clock := now\<rparr>)"
    using a(1) j by (auto simp: slots_inv_def)
  then show ?thesis unfolding q' by (rule pump_slots_inv)
qed

lemma new_queue_slots_inv: "slots_inv (new_queue c d)"
  by (simp add: slots_inv_def new_queue_def)

lemma run_slots_inv: "run (new_queue c d) es = Some q \<Longrightarrow> slots_inv q"
  by (erule run_invariant[where P = slots_inv]) (auto intro: new_queue_slots_inv step_slots_inv)

lemma pump_params [simp]:
  "concurrency (pump now q) = concurrency q" "minTimeMs (pump now q) = minTimeMs q"
  "nextJob (pump now q) = nextJob q" "settled (pump now q) = settled q"
  by (auto simp: pump_def begin_job_def Let_def split: list.splits)

lemma step_params:
  "step q e = Some q' \<Longrightarrow> concurrency q' = concurrency q \<and> minTimeMs q' = minTimeMs q"
  by (cases e) (auto simp: begin_job_def split: if_splits option.splits)

lemma run_params:
  "run q es = Some q' \<Longrightarrow> concurrency q' = concurrency q \<and> minTimeMs q' = minTimeMs q"
  by (induction es arbitrary: q) (auto split: option.splits dest: step_params)

lemma pump_started:
  "started (pump now q) = started q \<or> (\<exists>x. started (pump now q) = started q @ [x])"
  by (auto simp: pump_def begin_job_def Let_def split: list.splits)

lemma step_started:
  "step q e = Some q' \<Longrightarrow> started q' = started q \<or> (\<exists>x. started q' = started q @ [x])"
proof (cases e)
  case (Schedule now)
  assume "step q e = Some q'"
  then show ?thesis
    using Schedule pump_started[of now "q\<lparr>queue := queue q @ [nextJob q], nextJob := Suc (nextJob q), clock := now\<rparr>"]
    by (auto split: if_splits)
next
  case (Wake j now)
  assume "step q e = Some q'"
  then show ?thesis using Wake by (auto simp: begin_job_def split: if_splits option.splits)
next
  case (Settle j ok now)
  assume "step q e = Some q'"
  then show ?thesis
    using Settle pump_started[of now "q\<lparr>executing := remove1 j (executing q),
                             settled := settled q @ [(j, ok)],
                             running := running q - 1, clock := now\<rparr>"]
    by (auto split: if_splits)
qed

lemma step_settled:
  assumes "step q e = Some q'" "slots_inv q"
  shows "set (settled q) \<subseteq> set (settled q') \<and> fst ` set (settled q') \<subseteq> fst ` set (started q)"
proof (cases e)
  case (Schedule now)
  with assms(1) have "settled q' = settled q" by (auto split: if_splits)
  then show ?thesis using assms(2) by (simp add: slots_inv_def)
next
  case (Wake j now)
  with assms(1) have "settled q' = settled q"
    by (auto simp: begin_job_def split: if_splits option.splits)
  then show ?thesis using assms(2) by (simp add: slots_inv_def)
next
  case (Settle j ok now)
  with assms(1) have "settled q' = settled q @ [(j, ok)]" "j \<in> set (executing q)"
    by (auto split: if_splits)
  then show ?thesis using assms(2) by (auto simp: slots_inv_def)
qed

lemma step_released_inv:
  assumes inv: "slots_inv q" "released_inv q" and st: "step q e = Some q'"
  shows "released_inv q'"
proof -
  define n where "n = nat \<lceil>concurrency q'\<rceil>"
  have c: "concurrency q' = concurrency q" using st by (simp add: step_params)
  have inv': "slots_inv q'" using inv(1) st by (rule step_slots_inv)
  from step_settled[OF st inv(1)]
  have mono: "set (settled q) \<subseteq> set (settled q')"
    and before: "fst ` set (settled q') \<subseteq> fst ` set (started q)" by simp_all
  have "\<exists>j \<in> fst ` set (settled q'). j \<in> fst ` set (take n (started q'))"
    if more: "n < length (started q')"
  proof (cases "n < length (started q)")
    case True
    with inv(2) c obtain j where j: "j \<in> fst ` set (settled q)" "j \<in> fst ` set (take n (started q))"
      unfolding released_inv_def n_def by auto
    from step_started[OF st] True have "take n (started q') = take n (started q)" by auto
    with j mono show ?thesis by auto
  next
    case False
    then have le: "length (started q) \<le> n" by simp
    from inv' have "int (length (executing q')) \<le> max 0 \<lceil>concurrency q'\<rceil>"
      and total: "length (started q') = length (executing q') + length (settled q')"
      by (auto simp: slots_inv_def)
    then have "length (executing q') \<le> n" unfolding n_def by linarith
    with more total have "settled q' \<noteq> []" by auto
    then obtain x where x: "x \<in> set (settled q')" by (cases "settled q'") auto
    with before have "fst x \<in> fst ` set (started q)" by auto
    moreover from step_started[OF st] le have "set (started q) \<subseteq> set (take n (started q'))" by auto
    ultimately show ?thesis using x by auto
  qed
  then show ?thesis unfolding released_inv_def n_def by blast
qed

lemma pump_fifo_inv:
  assumes "slots_inv q" "fifo_inv q"
  shows "fifo_inv (pump now q)"
proof (cases "real_of_int (running q) \<ge> concurrency q \<or> queue q = []")
  case True
  then show ?thesis using assms(2) by (auto simp: pump_def)
next
  case False
  then obtain j rest where jr: "queue q = j # rest" and free: "real_of_int (running q) < concurrency q"
    by (cases "queue q") auto
  have idle: "sleeping q = [] \<and> executing q = []" if "concurrency q = 1"
  proof -
    from that free have "running q < 1" by simp
    with assms(1) have "int (length (sleeping q)) + int (length (executing q)) < 1"
      by (simp add: slots_inv_def)
    then have "length (sleeping q) = 0 \<and> length (executing q) = 0" by linarith
    then show ?thesis by simp
  qed
  show ?thesis using assms(2) jr free idle
    by (auto simp: fifo_inv_def pump_def begin_job_def Let_def)
qed

lemma step_fifo_inv:
  assumes "slots_inv q" "fifo_inv q" "step q e = Some q'"
  shows "fifo_inv q'"
proof (cases e)
  case (Schedule now)
  let ?q = "q\<lparr>queue := queue q @ [nextJob q], nextJob := Suc (nextJob q), clock := now\<rparr>"
  have "slots_inv ?q" using assms(1) by (simp add: slots_inv_def)
  moreover have "fifo_inv ?q" using assms(2) by (simp add: fifo_inv_def flip: append_assoc)
  ultimately have "fifo_inv (pump now ?q)" by (rule pump_fifo_inv)
  then show ?thesis using Schedule assms(3) by (auto split: if_splits)
next
  case (Wake j now)
  then obtain due where d: "map_of (sleeping q) j = Some due" 
     and q': "q' = begin_job now j (q\<lparr>sleeping := remove1 (j, due) (sleeping q), clock := now\<rparr>)"
    using assms(3) by (auto split: option.splits if_splits)
  from d have mem: "(j, due) \<in> set (sleeping q)" by (rule map_of_SomeD)
  have "sleeping q = [(j, due)]" if "concurrency q = 1"
  proof -
    from that assms(1) have "length (sleeping q) \<le> 1" by (auto simp: slots_inv_def)
    with mem show ?thesis by (cases "sleeping q") auto
  qed
  then show ?thesis using assms(2) unfolding q' by (auto simp: fifo_inv_def begin_job_def)
next
  case (Settle j ok now)
  let ?q = "q\<lparr>executing := remove1 j (executing q), settled := settled q @ [(j, ok)],
               running := running q - 1, clock := now\<rparr>"
  from Settle assms(3) have j: "j \<in> set (executing q)" and q': "q' = pump now ?q"
    by (auto split: if_splits)
  from j have "length (executing q) = Suc (length (remove1 j (executing q)))"
    by (rule length_remove1_Suc)
  moreover have "set (remove1 j (executing q)) \<subseteq> set (executing q)" by (rule set_remove1_subset)
  ultimately have "slots_inv ?q" using assms(1) j by (auto simp: slots_inv_def)
  moreover have "fifo_inv ?q" using assms(2) by (simp add: fifo_inv_def)
  ultimately show ?thesis unfolding q' by (rule pump_fifo_inv)
qed

lemma run_queue_invs:
  assumes "run (new_queue c d) es = Some q"
  shows "slots_inv q \<and> released_inv q \<and> fifo_inv q"
  using assms
proof (rule run_invariant)
  show "slots_inv (new_queue c d) \<and> released_inv (new_queue c d) \<and> fifo_inv (new_queue c d)"
    by (simp add: slots_inv_def released_inv_def fifo_inv_def new_queue_def)
next
  fix q e q'
  assume "slots_inv q \<and> released_inv q \<and> fifo_inv q" "step q e = Some q'"
  then show "slots_inv q' \<and> released_inv q' \<and> fifo_inv q'"
    by (auto intro: step_slots_inv step_released_inv step_fifo_inv)
qed

lemma paced_snoc:
  "paced d (ts @ [t]) \<longleftrightarrow> paced d ts \<and> (ts \<noteq> [] \<longrightarrow> d \<le> t - last ts)"
  by (induction d ts rule: paced.induct) auto

lemma begin_job_pace_inv:
  assumes "pace_inv q" "sleeping q = []" "lastStartAt q + minTimeMs q \<le> now"
  shows "pace_inv (begin_job now j q)"
  using assms by (auto simp: pace_inv_def begin_job_def paced_snoc last_map)

lemma pump_pace_inv:
  assumes "slots_inv q" "pace_inv q" "concurrency q \<le> 1"
  shows "pace_inv (pump now q)"
proof (cases "real_of_int (running q) \<ge> concurrency q \<or> queue q = []")
  case True
  then show ?thesis using assms(2) by (auto simp: pump_def)
next
  case False
  then obtain j rest where jr: "queue q = j # rest" and free: "real_of_int (running q) < concurrency q"
    by (cases "queue q") auto
  let ?q1 = "q\<lparr>queue := rest, running := running q + 1, dispatched := dispatched q @ [j]\<rparr>"
  have idle: "sleeping q = []"
  proof -
    from assms(3) free have "real_of_int (running q) < 1" by linarith
    then have "running q < 1" by simp
    with assms(1) have "int (length (sleeping q)) + int (length (executing q)) < 1"
      by (simp add: slots_inv_def)
    then have "length (sleeping q) = 0" by linarith
    then show ?thesis by simp
  qed
  have q1: "pace_inv ?q1" using assms(2) by (simp add: pace_inv_def)
  show ?thesis
  proof (cases "waitMs ?q1 now > 0")
    case True
    then have "pump now q = ?q1\<lparr>sleeping := sleeping ?q1 @ [(j, now + waitMs ?q1 now)]\<rparr>"
      using jr free by (simp add: pump_def Let_def)
    moreover from True have "lastStartAt q + minTimeMs q \<le> now + waitMs ?q1 now"
      by (simp add: waitMs_def)
    ultimately show ?thesis using q1 idle by (simp add: pace_inv_def)
  next
    case False
    then have "pump now q = begin_job now j ?q1"
      using jr free by (simp add: pump_def Let_def)
    moreover from False have "lastStartAt ?q1 + minTimeMs ?q1 \<le> now"
      by (simp add: waitMs_def)
    ultimately show ?thesis using begin_job_pace_inv[OF q1, of now j] idle by simp
  qed
qed

lemma step_pace_inv:
  assumes "slots_inv q" "pace_inv q" "concurrency q \<le> 1" "step q e = Some q'"
  shows "pace_inv q'"
proof (cases e)
  case (Schedule now)
  let ?q = "q\<lparr>queue := queue q @ [nextJob q], nextJob := Suc (nextJob q), clock := now\<rparr>"
  have "slots_inv ?q" using assms(1) by (simp add: slots_inv_def)
  moreover have "pace_inv ?q" using assms(2) by (simp add: pace_inv_def)
  ultimately have "pace_inv (pump now ?q)" using assms(3) by (intro pump_pace_inv) simp_all
  then show ?thesis using Schedule assms(4) by (auto split: if_splits)
next
  case (Wake j now)
  then obtain due where d: "map_of (sleeping q) j = Some due" and late: "due \<le> now"
     and q': "q' = begin_job now j (q\<lparr>sleeping := remove1 (j, due) (sleeping q), clock := now\<rparr>)"
    using assms(4) by (auto split: option.splits if_splits)
  let ?q = "q\<lparr>sleeping := remove1 (j, due) (sleeping q), clock := now\<rparr>"
  from d have mem: "(j, due) \<in> set (sleeping q)" by (rule map_of_SomeD)
  have one: "sleeping q = [(j, due)]"
  proof -
    from assms(3) have "\<lceil>concurrency q\<rceil> \<le> 1" by (simp add: ceiling_le_iff)
    moreover from assms(1)
    have "int (length (sleeping q)) + int (length (executing q)) \<le> max 0 \<lceil>concurrency q\<rceil>"
      by (simp add: slots_inv_def)
    ultimately have "length (sleeping q) \<le> 1" by linarith
    with mem show ?thesis by (cases "sleeping q") auto
  qed
  have "pace_inv ?q" using assms(2) one by (simp add: pace_inv_def)
  moreover have "sleeping ?q = []" using one by simp
  moreover have "lastStartAt ?q + minTimeMs ?q \<le> now"
    using assms(2) mem late by (auto simp: pace_inv_def)
  ultimately show ?thesis unfolding q' by (rule begin_job_pace_inv)
next
  case (Settle j ok now)
  let ?q = "q\<lparr>executing := remove1 j (executing q), settled := settled q @ [(j, ok)],
               running := running q - 1, clock := now\<rparr>"
  from Settle assms(4) have j: "j \<in> set (executing q)" and q': "q' = pump now ?q"
    by (auto split: if_splits)
  from j have "length (executing q) = Suc (length (remove1 j (executing q)))"
    by (rule length_remove1_Suc)
  moreover have "set (remove1 j (executing q)) \<subseteq> set (executing q)" by (rule set_remove1_subset)
  ultimately have "slots_inv ?q" using assms(1) j by (auto simp: slots_inv_def)
  moreover have "pace_inv ?q" using assms(2) by (simp add: pace_inv_def)
  ultimately show ?thesis unfolding q' using assms(3) by (intro pump_pace_inv) simp_all
qed

lemma run_pace_inv:
  assumes "run (new_queue c d) es = Some q" "c \<le> 1"
  shows "paced d (map snd (started q))"
proof -
  have "slots_inv q \<and> pace_inv q \<and> concurrency q = c \<and> minTimeMs q = d"
    using assms(1)
  proof (rule run_invariant)
    show "slots_inv (new_queue c d) \<and> pace_inv (new_queue c d) \<and>
          concurrency (new_queue c d) = c \<and> minTimeMs (new_queue c d) = d"
      by (simp add: slots_inv_def pace_inv_def new_queue_def)
  next
    fix q e q'
    assume "slots_inv q \<and> pace_inv q \<and> concurrency q = c \<and> minTimeMs q = d" "step q e = Some q'"
    then show "slots_inv q' \<and> pace_inv q' \<and> concurrency q' = c \<and> minTimeMs q' = d"
      using assms(2) by (auto intro: step_slots_inv step_pace_inv dest: step_params)
  qed
  then show ?thesis by (auto simp: pace_inv_def)
qed

lemma step_stalled_inv:
  assumes "stalled_inv q" "concurrency q \<le> 0" "step q e = Some q'"
  shows "stalled_inv q'"
proof (cases e)
  case (Schedule now)
  then show ?thesis using assms by (auto simp: stalled_inv_def pump_def split: if_splits)
next
  case (Wake j now)
  then show ?thesis using assms by (auto simp: stalled_inv_def split: option.splits)
next
  case (Settle j ok now)
  then show ?thesis using assms by (auto simp: stalled_inv_def split: if_splits)
qed

lemma run_stalled_inv:
  assumes "run (new_queue c d) es = Some q" "c \<le> 0"
  shows "stalled_inv q"
proof -
  have "stalled_inv q \<and> concurrency q = c"
    using assms(1)
  proof (rule run_invariant)
    show "stalled_inv (new_queue c d) \<and> concurrency (new_queue c d) = c"
      by (simp add: stalled_inv_def new_queue_def)
  next
    fix q e q'
    assume "stalled_inv q \<and> concurrency q = c" "step q e = Some q'"
    then show "stalled_inv q' \<and> concurrency q' = c"
      using assms(2) by (auto intro: step_stalled_inv dest: step_params)
  qed
  then show ?thesis by simp
qed

section \<open>Claims about the queue\<close>

lemmas queue_eval = new_queue_def pump_def waitMs_def begin_job_def

text \<open>
  Claim C1: for every \<^verbatim>\<open>minTimeMs = D\<close> and at any concurrency, the start times of two
  consecutively started jobs are at least \<open>D\<close> apart, also for a burst of jobs with
  instantaneous bodies. The class comment says the same of \<^verbatim>\<open>minTimeMs\<close>. With
  \<^verbatim>\<open>new ThrottleQueue(2, 1200)\<close> and three jobs submitted at clock 5000, the first of
  which settles at once, the code starts the second and the third job both at 6200: each
  computed its wait from the \<^verbatim>\<open>lastStartAt\<close> of the first job before going to sleep.
\<close>

theorem C1_burst_starts_too_close:
  "map_option started
     (run (new_queue 2 1200)
        [Schedule 5000, Schedule 5000, Schedule 5000, Settle 0 True 5000,
         Wake 1 6200, Wake 2 6200])
   = Some [(0, 5000), (1, 6200), (2, 6200)] \<and>
   \<not> paced 1200 (map snd [(0 :: job, 5000), (1, 6200), (2, 6200)])"
  by (simp add: queue_eval)

text \<open>
  With at most one slot the pacing does hold: the single activation that is between
  the increment and the decrement of \<^verbatim>\<open>running\<close> is the only one that reads and
  writes \<^verbatim>\<open>lastStartAt\<close>.
\<close>

lemma pacing_with_one_slot:
  assumes "c \<le> 1" and "run (new_queue c d) es = Some q"
  shows "paced d (map snd (started q))"
  using assms(2,1) by (rule run_pace_inv)

text \<open>
  For any bound, also a fractional or a negative one, the counter stays between 0 and
  the bound rounded up to a whole number (0 for a negative bound): line 35 lets an
  activation through while the counter is below the bound.
\<close>

lemma running_within_ceiling:
  assumes "run (new_queue c D) es = Some q"
  shows "0 \<le> running q \<and> running q \<le> max 0 \<lceil>c\<rceil>"
proof -
  from assms have "slots_inv q" by (simp add: run_queue_invs)
  moreover from assms have "concurrency q = c" by (simp add: run_params new_queue_def)
  ultimately show ?thesis by (auto simp: slots_inv_def)
qed

lemma fractional_bound_rounds_up:
  "map_option running (run (new_queue 1.5 1200) [Schedule 5000, Schedule 5000]) = Some 2"
  by (simp add: queue_eval)

text \<open>
  Claim C2: for every concurrency bound \<open>N\<close>, a number of slots, in every state the
  queue reaches \<open>0 \<le> running \<le> N\<close>, \<^verbatim>\<open>running\<close> counts the activations that sleep or
  run their job, so that at most \<open>N\<close> jobs run at once; and when more than \<open>N\<close> jobs have
  been started (the \<open>(N+1)\<close>-th has begun), one of the first \<open>N\<close> started has settled.
\<close>

theorem C2_running_within_bound:
  assumes "run (new_queue (real N) D) es = Some q"
  shows "0 \<le> running q \<and> running q \<le> int N \<and>
         running q = int (length (sleeping q)) + int (length (executing q)) \<and>
         length (executing q) \<le> N \<and>
         (N < length (started q) \<longrightarrow>
            (\<exists>j \<in> fst ` set (settled q). j \<in> fst ` set (take N (started q))))"
proof -
  from assms have inv: "slots_inv q" "released_inv q" by (simp_all add: run_queue_invs)
  from assms have c: "concurrency q = real N" by (simp add: run_params new_queue_def)
  then have n: "\<lceil>concurrency q\<rceil> = int N" by simp
  from inv(1) n have "0 \<le> running q" "running q \<le> int N"
    "running q = int (length (sleeping q)) + int (length (executing q))"
    by (auto simp: slots_inv_def)
  moreover from this have "length (executing q) \<le> N" by linarith
  moreover from inv(2) n have "N < length (started q) \<longrightarrow>
      (\<exists>j \<in> fst ` set (settled q). j \<in> fst ` set (take N (started q)))"
    by (simp add: released_inv_def)
  ultimately show ?thesis by blast
qed

text \<open>
  Claim C2, an instance: one slot and two jobs; the second job starts after the first
  has settled.
\<close>

theorem C2_running_within_bound_witness:
  "run (new_queue (real 1) 1200) [Schedule 5000, Schedule 5000, Settle 0 True 5100, Wake 1 6200] =
     Some \<lparr>concurrency = 1, minTimeMs = 1200, running = 1, lastStartAt = 6200, queue = [],
           sleeping = [], executing = [1], nextJob = 2, clock = 6200, dispatched = [0, 1],
           started = [(0, 5000), (1, 6200)], settled = [(0, True)]\<rparr> \<and>
   1 < length [(0 :: job, 5000 :: int), (1, 6200)] \<and>
   (\<exists>j \<in> fst ` set [(0 :: job, True)]. j \<in> fst ` set (take 1 [(0 :: job, 5000 :: int), (1, 6200)]))"
proof -
  have r: "run (new_queue (real 1) 1200) [Schedule 5000, Schedule 5000, Settle 0 True 5100, Wake 1 6200] =
     Some \<lparr>concurrency = 1, minTimeMs = 1200, running = 1, lastStartAt = 6200, queue = [],
           sleeping = [], executing = [1], nextJob = 2, clock = 6200, dispatched = [0, 1],
           started = [(0, 5000), (1, 6200)], settled = [(0, True)]\<rparr>"
    by (simp add: queue_eval)
  have c: "1 < length [(0 :: job, 5000 :: int), (1, 6200)] \<and>
     (\<exists>j \<in> fst ` set [(0 :: job, True)].
        j \<in> fst ` set (take 1 [(0 :: job, 5000 :: int), (1, 6200)]))"
    using C2_running_within_bound[OF r] by simp
  show ?thesis by (rule conjI[OF r c])
qed

text \<open>
  Claim C6 says that constructing a queue with concurrency 0 fails at construction. The
  constructor has no check: \<^verbatim>\<open>new ThrottleQueue(0, 1200)\<close> is a queue, and a
  submission to it is accepted and left pending, with nothing running.
\<close>

theorem C6_zero_concurrency_counterexample:
  "step (new_queue 0 1200) (Schedule 5000) =
     Some \<lparr>concurrency = 0, minTimeMs = 1200, running = 0, lastStartAt = 0, queue = [0],
           sleeping = [], executing = [], nextJob = 1, clock = 5000, dispatched = [],
           started = [], settled = []\<rparr>"
  by (simp add: queue_eval)

text \<open>
  Claim C6, amended: constructing the queue with a concurrency that is not positive
  succeeds; whatever happens afterwards, the queue has started and dispatched no job,
  all submitted jobs are pending in submission order, and a further submission is
  accepted and starts nothing.
\<close>

theorem C6_nonpositive_concurrency_stalls:
  assumes "c \<le> 0" and "run (new_queue c d) es = Some q"
  shows "started q = [] \<and> dispatched q = [] \<and> running q = 0 \<and> queue q = [0..<nextJob q] \<and>
         (clock q \<le> now \<longrightarrow>
            (\<exists>q'. step q (Schedule now) = Some q' \<and> queue q' = queue q @ [nextJob q] \<and>
                  started q' = []))"
proof -
  let ?q2 = "q\<lparr>queue := queue q @ [nextJob q], nextJob := Suc (nextJob q), clock := now\<rparr>"
  from assms have inv: "stalled_inv q" by (rule run_stalled_inv[rotated])
  from assms(2) have c: "concurrency q = c" by (simp add: run_params new_queue_def)
  from inv have fields: "started q = []" "dispatched q = []" "running q = 0"
    "queue q = [0..<nextJob q]"
    by (simp_all add: stalled_inv_def)
  have "concurrency ?q2 \<le> real_of_int (running ?q2)" using fields(3) c assms(1) by simp
  then have "pump now ?q2 = ?q2" by (simp add: pump_def)
  then have "step q (Schedule now) = Some ?q2" if "clock q \<le> now"
    using that by simp
  moreover have "queue ?q2 = queue q @ [nextJob q]" "started ?q2 = []"
    using fields(1) by simp_all
  ultimately have "clock q \<le> now \<longrightarrow>
      (\<exists>q'. step q (Schedule now) = Some q' \<and> queue q' = queue q @ [nextJob q] \<and>
            started q' = [])"
    by blast
  with fields show ?thesis by blast
qed

text \<open>Claim C6, an instance: concurrency 0 and three submissions.\<close>

theorem C6_nonpositive_concurrency_stalls_witness:
  "(0::real) \<le> 0 \<and>
   run (new_queue 0 1200) [Schedule 5000, Schedule 5001] =
     Some \<lparr>concurrency = 0, minTimeMs = 1200, running = 0, lastStartAt = 0, queue = [0, 1],
           sleeping = [], executing = [], nextJob = 2, clock = 5001, dispatched = [],
           started = [], settled = []\<rparr> \<and>
   (5001::int) \<le> 9000 \<and>
   (\<exists>q'. step \<lparr>concurrency = 0, minTimeMs = 1200, running = 0, lastStartAt = 0, queue = [0, 1],
           sleeping = [], executing = [], nextJob = 2, clock = 5001, dispatched = [],
           started = [], settled = []\<rparr> (Schedule 9000) = Some q' \<and> queue q' = [0, 1, 2] \<and>
         started q' = [])"
proof -
  have r: "run (new_queue 0 1200) [Schedule 5000, Schedule 5001] =
     Some \<lparr>concurrency = 0, minTimeMs = 1200, running = 0, lastStartAt = 0, queue = [0, 1],
           sleeping = [], executing = [], nextJob = 2, clock = 5001, dispatched = [],
           started = [], settled = []\<rparr>"
    by (simp add: queue_eval)
  have h: "(0::real) \<le> 0" by simp
  have c: "\<exists>q'. step \<lparr>concurrency = 0, minTimeMs = 1200, running = 0, lastStartAt = 0,
           queue = [0, 1], sleeping = [], executing = [], nextJob = 2, clock = 5001,
           dispatched = [], started = [], settled = []\<rparr> (Schedule 9000) = Some q' \<and>
         queue q' = [0, 1, 2] \<and> started q' = []"
    using C6_nonpositive_concurrency_stalls[OF h r, of 9000, THEN conjunct2, THEN conjunct2,
        THEN conjunct2, THEN conjunct2]
    by simp
  have t: "(5001::int) \<le> 9000" by simp
  show ?thesis by (rule conjI[OF h conjI[OF r conjI[OF t c]]])
qed

text \<open>
  Claim C7: jobs are taken from the queue in submission order (the dispatched jobs
  followed by the pending ones are the submitted jobs in order), and with
  \<^verbatim>\<open>concurrency = 1\<close> they start in exactly that order: the started jobs, then the
  sleeping one, are the dispatched jobs, so the started jobs are a prefix of the
  submission order.
\<close>

theorem C7_fifo_dispatch:
  assumes "run (new_queue c d) es = Some q"
  shows "dispatched q @ queue q = [0..<nextJob q] \<and>
         (c = 1 \<longrightarrow> map fst (started q) @ map fst (sleeping q) = dispatched q \<and>
                    prefix (map fst (started q)) [0..<nextJob q])"
proof -
  from assms have inv: "fifo_inv q" by (simp add: run_queue_invs)
  from assms have c: "concurrency q = c" by (simp add: run_params new_queue_def)
  from inv have all: "dispatched q @ queue q = [0..<nextJob q]" by (simp add: fifo_inv_def)
  moreover have "map fst (started q) @ map fst (sleeping q) = dispatched q \<and>
                 prefix (map fst (started q)) [0..<nextJob q]" if "c = 1"
  proof -
    from inv c that have eq: "map fst (started q) @ map fst (sleeping q) = dispatched q"
      by (simp add: fifo_inv_def)
    have "[0..<nextJob q] = dispatched q @ queue q" using all by simp
    also have "\<dots> = map fst (started q) @ (map fst (sleeping q) @ queue q)"
      using eq[symmetric] by simp
    finally have "[0..<nextJob q] = map fst (started q) @ (map fst (sleeping q) @ queue q)" .
    then have "prefix (map fst (started q)) [0..<nextJob q]" by (rule prefixI)
    with eq show ?thesis by simp
  qed
  ultimately show ?thesis by blast
qed

text \<open>
  Claim C7, an instance: three jobs submitted together to a queue with one slot start
  in the order 0, 1, 2.
\<close>

theorem C7_fifo_dispatch_witness:
  "run (new_queue 1 1200)
     [Schedule 5000, Schedule 5000, Schedule 5000, Settle 0 True 5100, Wake 1 6200,
      Settle 1 False 6300, Wake 2 7400] =
     Some \<lparr>concurrency = 1, minTimeMs = 1200, running = 1, lastStartAt = 7400, queue = [],
           sleeping = [], executing = [2], nextJob = 3, clock = 7400, dispatched = [0, 1, 2],
           started = [(0, 5000), (1, 6200), (2, 7400)], settled = [(0, True), (1, False)]\<rparr> \<and>
   map fst [(0 :: job, 5000 :: int), (1, 6200), (2, 7400)] = [0, 1, 2] \<and>
   prefix (map fst [(0 :: job, 5000 :: int), (1, 6200), (2, 7400)]) [0..<3]"
proof -
  have r: "run (new_queue 1 1200)
     [Schedule 5000, Schedule 5000, Schedule 5000, Settle 0 True 5100, Wake 1 6200,
      Settle 1 False 6300, Wake 2 7400] =
     Some \<lparr>concurrency = 1, minTimeMs = 1200, running = 1, lastStartAt = 7400, queue = [],
           sleeping = [], executing = [2], nextJob = 3, clock = 7400, dispatched = [0, 1, 2],
           started = [(0, 5000), (1, 6200), (2, 7400)], settled = [(0, True), (1, False)]\<rparr>"
    by (simp add: queue_eval)
  have c: "map fst [(0 :: job, 5000 :: int), (1, 6200), (2, 7400)] = [0, 1, 2] \<and>
     prefix (map fst [(0 :: job, 5000 :: int), (1, 6200), (2, 7400)]) [0..<3]"
    using C7_fifo_dispatch[OF r] by simp
  show ?thesis by (rule conjI[OF r c])
qed

text \<open>
  Claim C10: a new queue has \<^verbatim>\<open>lastStartAt = 0\<close>, so the wait computed for the first
  job is \<open>max 0 (minTimeMs - now)\<close>, which is 0 when the clock reading is at least
  \<^verbatim>\<open>minTimeMs\<close>; the first job submitted to a queue with a free slot then starts in
  the block that submitted it.
\<close>

theorem C10_first_job_not_delayed:
  "lastStartAt (new_queue c d) = 0 \<and>
   waitMs (new_queue c d) now = max 0 (d - now) \<and>
   (d \<le> now \<longrightarrow> waitMs (new_queue c d) now = 0) \<and>
   (1 \<le> c \<and> 0 \<le> now \<and> d \<le> now \<longrightarrow>
      map_option started (step (new_queue c d) (Schedule now)) = Some [(0, now)])"
  by (simp add: queue_eval)

text \<open>Claim C10, an instance: \<^verbatim>\<open>new ThrottleQueue(1, 1200)\<close> at clock 5000.\<close>

theorem C10_first_job_not_delayed_witness:
  "(1200::int) \<le> 5000 \<and> (1::real) \<le> 1 \<and> (0::int) \<le> 5000 \<and>
   waitMs (new_queue 1 1200) 5000 = 0 \<and>
   map_option started (step (new_queue 1 1200) (Schedule 5000)) = Some [(0, 5000)]"
  using C10_first_job_not_delayed[of 1 1200 5000] by simp

section \<open>Properties of withRetry\<close>

declare retry_loop.simps [simp del]

lemma retry_loop_Fulfilled:
  "f n = Fulfilled v \<Longrightarrow>
   retry_loop opts f random attempt n seen = \<lparr>outcome = Inr v, calls = Suc n, retries = seen\<rparr>"
  by (subst retry_loop.simps) simp

lemma retry_loop_Throw:
  "f n = Rejected err \<Longrightarrow> on_failure opts attempt (random n) err = Throw \<Longrightarrow>
   retry_loop opts f random attempt n seen = \<lparr>outcome = Inl err, calls = Suc n, retries = seen\<rparr>"
  by (subst retry_loop.simps) simp

lemma retry_loop_Retry:
  "f n = Rejected err \<Longrightarrow> on_failure opts attempt (random n) err = Retry a d \<Longrightarrow>
   retry_loop opts f random attempt n seen =
   retry_loop opts f random a (Suc n) (seen @ [(a, d, err)])"
  by (subst retry_loop.simps) simp

lemma on_failure_terminal:
  "\<not> shouldRetry (extractStatusCode err) (error_text err) err \<Longrightarrow>
   on_failure opts attempt r err = Throw"
  by (simp add: on_failure_def)

lemma on_failure_retryable:
  "shouldRetry (extractStatusCode err) (error_text err) err \<Longrightarrow>
   on_failure opts attempt r err =
     (if int (Suc attempt) > maxRetries opts then Throw
      else Retry (Suc attempt) (jittered opts (base_delay opts (error_text err) (Suc attempt)) r))"
  by (simp add: on_failure_def Let_def)

lemma retry_loop_exhaust:
  assumes fails: "\<And>k. f k = Rejected (e k)"
    and retryable: "\<And>k. shouldRetry (extractStatusCode (e k)) (error_text (e k)) (e k)"
    and left: "r = nat (maxRetries opts) - a"
  shows "outcome (retry_loop opts f random a n seen) = Inl (e (n + r)) \<and>
         calls (retry_loop opts f random a n seen) = Suc (n + r) \<and>
         length (retries (retry_loop opts f random a n seen)) = length seen + r"
  using left
proof (induction r arbitrary: a n seen)
  case 0
  then have "int (Suc a) > maxRetries opts" by linarith
  then have "on_failure opts a (random n) (e n) = Throw"
    using retryable[of n] by (simp add: on_failure_retryable)
  with fails[of n] have "retry_loop opts f random a n seen =
      \<lparr>outcome = Inl (e n), calls = Suc n, retries = seen\<rparr>"
    by (rule retry_loop_Throw)
  then show ?case by simp
next
  case (Suc r)
  then have le: "int (Suc a) \<le> maxRetries opts" by linarith
  from Suc(2) have r: "r = nat (maxRetries opts) - Suc a" by linarith
  let ?d = "jittered opts (base_delay opts (error_text (e n)) (Suc a)) (random n)"
  have "on_failure opts a (random n) (e n) = Retry (Suc a) ?d"
    using retryable[of n] le by (simp add: on_failure_retryable)
  with fails[of n] have "retry_loop opts f random a n seen =
      retry_loop opts f random (Suc a) (Suc n) (seen @ [(Suc a, ?d, e n)])"
    by (rule retry_loop_Retry)
  then show ?case using Suc(1)[OF r, of "Suc n" "seen @ [(Suc a, ?d, e n)]"] by simp
qed

lemma overflow_bound_large: "2 ^ 1023 < overflow_bound"
  by (simp add: overflow_bound_def)

lemma js_fin_Num: "\<bar>x\<bar> < 2 ^ 1023 \<Longrightarrow> js_fin x = Num x"
  using overflow_bound_large by (auto simp: js_fin_def)

lemma js_fin_small: "\<bar>x\<bar> \<le> 10 ^ 9 \<Longrightarrow> js_fin x = Num x"
proof -
  assume "\<bar>x\<bar> \<le> 10 ^ 9"
  moreover have "(10::real) ^ 9 < 2 ^ 1023" by simp
  ultimately have "\<bar>x\<bar> < 2 ^ 1023" by linarith
  then show ?thesis by (rule js_fin_Num)
qed

lemma js_fin_not_NaN: "js_fin x \<noteq> NaN"
  by (simp add: js_fin_def)

lemma js_pow2_cases: "js_pow2 k = Num (2 ^ k) \<or> js_pow2 k = PosInf"
proof -
  have "(0::real) < 2 ^ k" by simp
  moreover have "0 < overflow_bound" using overflow_bound_large
    by (rule less_trans[rotated]) simp
  ultimately have "\<not> (2::real) ^ k \<le> - overflow_bound" by linarith
  then show ?thesis by (simp add: js_pow2_def js_fin_def)
qed

lemma js_pow2_finite: "k < 1024 \<Longrightarrow> js_pow2 k = Num (2 ^ k)"
proof -
  assume "k < 1024"
  then have "k \<le> 1023" by simp
  then have "(2::real) ^ k \<le> 2 ^ 1023" by (rule power_increasing) simp
  with overflow_bound_large have "\<not> overflow_bound \<le> 2 ^ k" by linarith
  then have "js_pow2 k \<noteq> PosInf" by (simp add: js_pow2_def js_fin_def)
  with js_pow2_cases[of k] show ?thesis by simp
qed

text \<open>
  The exponential term is \<^verbatim>\<open>NaN\<close> only when \<^verbatim>\<open>baseDelayMs\<close> is 0 and the power of
  two has overflowed (0 times \<^verbatim>\<open>Infinity\<close>), which takes more than 1024 attempts.
\<close>

lemma exp_term_not_NaN:
  assumes "b \<noteq> 0 \<or> k < 1024"
  shows "js_mul (Num b) (js_pow2 k) \<noteq> NaN"
proof (cases "js_pow2 k = PosInf")
  case True
  with assms js_pow2_finite[of k] have "b \<noteq> 0" by auto
  with True show ?thesis by simp
next
  case False
  with js_pow2_cases[of k] have "js_pow2 k = Num (2 ^ k)" by simp
  then show ?thesis by (simp add: js_fin_not_NaN)
qed

lemma server_delay_wins:
  assumes "e \<noteq> NaN" and "M \<le> d"
  shows "js_max (Num d) (js_min (Num M) e) = Num d"
  using assms by (cases e) (auto simp: max_def min_def)

lemma infinite_delay_wins:
  assumes "e \<noteq> NaN"
  shows "js_max PosInf (js_min (Num M) e) = PosInf"
  using assms by (cases e) auto

lemma exp_term_capped:
  assumes "1 \<le> b" and "M < overflow_bound"
  shows "js_min (Num M) (js_mul (Num b) (js_pow2 k)) = Num (min M (b * 2 ^ k))"
proof -
  have pos: "0 < b * 2 ^ k" using assms(1) by simp
  have ge: "(2::real) ^ k \<le> b * 2 ^ k" using assms(1) by simp
  have bpos: "0 < overflow_bound" using overflow_bound_large
    by (rule less_trans[rotated]) simp
  show ?thesis
  proof (cases "overflow_bound \<le> b * 2 ^ k")
    case True
    then have m: "min M (b * 2 ^ k) = M" using assms(2) by simp
    have "js_mul (Num b) (js_pow2 k) = PosInf"
    proof (cases "js_pow2 k = PosInf")
      case True
      then show ?thesis using assms(1) by simp
    next
      case False
      with js_pow2_cases[of k] have "js_pow2 k = Num (2 ^ k)" by simp
      then show ?thesis using \<open>overflow_bound \<le> b * 2 ^ k\<close> by (simp add: js_fin_def)
    qed
    then show ?thesis using m by simp
  next
    case False
    then have small: "b * 2 ^ k < overflow_bound" by simp
    with ge have "\<not> overflow_bound \<le> (2::real) ^ k" by linarith
    then have "js_pow2 k = Num (2 ^ k)" using js_pow2_cases[of k]
      by (auto simp: js_pow2_def js_fin_def)
    moreover have "js_fin (b * 2 ^ k) = Num (b * 2 ^ k)"
      using small pos bpos by (simp add: js_fin_def)
    ultimately show ?thesis by simp
  qed
qed

text \<open>
  A final delay is \<^verbatim>\<open>NaN\<close>, \<^verbatim>\<open>Infinity\<close> or a whole number of at least 250, and it
  is the last when nothing overflows.
\<close>

lemma jittered_shape:
  "jittered opts d r = NaN \<or> jittered opts d r = PosInf \<or>
   whole_at_least_250 (jittered opts d r)"
proof -
  have "js_max (Num 250) (js_round y) = NaN \<or> js_max (Num 250) (js_round y) = PosInf \<or>
        whole_at_least_250 (js_max (Num 250) (js_round y))" for y
    by (cases y) (auto simp: max_def)
  then show ?thesis by (simp add: jittered_def Let_def)
qed

lemma jittered_in_range:
  assumes "\<bar>d\<bar> \<le> 2 ^ 1000" and "\<bar>jitterRatio opts\<bar> \<le> 1" and "0 \<le> r" and "r \<le> 1"
  shows "whole_at_least_250 (jittered opts (Num d) r)"
proof -
  define a where "a = d * jitterRatio opts"
  define j where "j = a * (r * 2 - 1)"
  have s: "\<bar>r * 2 - 1\<bar> \<le> 1" using assms(3,4) by (simp add: abs_le_iff)
  have "\<bar>a\<bar> = \<bar>d\<bar> * \<bar>jitterRatio opts\<bar>" by (simp add: a_def abs_mult)
  also have "\<dots> \<le> \<bar>d\<bar> * 1" using assms(2) by (intro mult_left_mono) simp_all
  finally have a: "\<bar>a\<bar> \<le> 2 ^ 1000" using assms(1) by simp
  have "\<bar>j\<bar> = \<bar>a\<bar> * \<bar>r * 2 - 1\<bar>" by (simp add: j_def abs_mult)
  also have "\<dots> \<le> \<bar>a\<bar> * 1" using s by (intro mult_left_mono) simp_all
  finally have j: "\<bar>j\<bar> \<le> 2 ^ 1000" using a by simp
  have big: "(2::real) ^ 1000 + 2 ^ 1000 < 2 ^ 1023" by simp
  have "\<bar>a\<bar> < 2 ^ 1023" "\<bar>j\<bar> < 2 ^ 1023" "\<bar>d + j\<bar> < 2 ^ 1023"
    using a j assms(1) big by linarith+
  then have "js_fin a = Num a" "js_fin j = Num j" "js_fin (d + j) = Num (d + j)"
    by (simp_all add: js_fin_Num)
  then have "jittered opts (Num d) r = Num (max 250 (real_of_int \<lfloor>d + j + 1 / 2\<rfloor>))"
    by (simp add: jittered_def Let_def a_def[symmetric] j_def[symmetric])
  moreover have "max 250 (real_of_int \<lfloor>d + j + 1 / 2\<rfloor>) \<in> \<int>" by (simp add: max_def)
  ultimately show ?thesis by simp
qed

lemma retry_loop_delays:
  assumes "\<forall>(a, d, e) \<in> set seen. d = NaN \<or> d = PosInf \<or> whole_at_least_250 d"
  shows "\<forall>(a, d, e) \<in> set (retries (retry_loop opts f random attempt n seen)).
           d = NaN \<or> d = PosInf \<or> whole_at_least_250 d"
  using assms
proof (induction opts f random attempt n seen rule: retry_loop.induct)
  case (1 opts f random attempt n seen)
  show ?case
  proof (cases "f n")
    case (Fulfilled v)
    then show ?thesis using 1(2) by (simp add: retry_loop_Fulfilled)
  next
    case (Rejected err)
    show ?thesis
    proof (cases "on_failure opts attempt (random n) err")
      case Throw
      with Rejected show ?thesis using 1(2) by (simp add: retry_loop_Throw)
    next
      case (Retry a d)
      then have "d = NaN \<or> d = PosInf \<or> whole_at_least_250 d"
        using jittered_shape by (auto simp: on_failure_def Let_def split: if_splits)
      with 1(2) have "\<forall>(a, d, e) \<in> set (seen @ [(a, d, err)]).
          d = NaN \<or> d = PosInf \<or> whole_at_least_250 d" by auto
      from 1(1)[OF Rejected Retry this] show ?thesis
        using Rejected Retry by (simp add: retry_loop_Retry)
    qed
  qed
qed

lemma shouldRetry_iff:
  "shouldRetry status msg err \<longleftrightarrow>
     status = Some 429 \<or>
     str_includes (toLowerCase msg) ''resource_exhausted'' \<or>
     str_includes (toLowerCase msg) ''quota'' \<or>
     str_includes (toLowerCase msg) ''rate limit'' \<or>
     str_includes (toLowerCase msg) ''network'' \<or>
     str_includes (toLowerCase msg) ''fetch'' \<or>
     str_includes (toLowerCase msg) ''timeout'' \<or>
     err_response_status err = Some 429"
  unfolding shouldRetry_def Let_def by (simp only: if_True if_False simp_thms split: if_split) blast

lemmas char_eval = is_digit_def is_space_def is_upper_def is_lower_def is_word_char_def

lemmas text_eval = char_eval toLowerCase_def error_text_def plain_error_def

lemmas status_eval = char_eval extractStatusCode_def status_re_def word_end_def plain_error_def

lemmas delay_eval = char_eval parseRetryDelayMs_def retryDelay_re_def retry_after_re_def
  retryAfter_re_def digits_then_def digits_value_def js_number_def js_fin_small

section \<open>Claims about withRetry\<close>

text \<open>
  Claim C3: a failure is retryable exactly when its extracted status is 429, or its
  lower-cased message contains one of the six substrings, or its nested response status
  is 429; any other failure is thrown on at once: the loop ends with that same error,
  no further call, no observer call and no sleep, and from the start that is one call
  and no retry.
\<close>

theorem C3_retryable_classification:
  "(shouldRetry (extractStatusCode err) (error_text err) err \<longleftrightarrow>
      extractStatusCode err = Some 429 \<or>
      str_includes (toLowerCase (error_text err)) ''resource_exhausted'' \<or>
      str_includes (toLowerCase (error_text err)) ''quota'' \<or>
      str_includes (toLowerCase (error_text err)) ''rate limit'' \<or>
      str_includes (toLowerCase (error_text err)) ''network'' \<or>
      str_includes (toLowerCase (error_text err)) ''fetch'' \<or>
      str_includes (toLowerCase (error_text err)) ''timeout'' \<or>
      err_response_status err = Some 429) \<and>
   (\<not> shouldRetry (extractStatusCode err) (error_text err) err \<and> f n = Rejected err \<longrightarrow>
      retry_loop opts f random attempt n seen =
        \<lparr>outcome = Inl err, calls = Suc n, retries = seen\<rparr>) \<and>
   (\<not> shouldRetry (extractStatusCode err) (error_text err) err \<and> f 0 = Rejected err \<longrightarrow>
      withRetry f opts random = \<lparr>outcome = Inl err, calls = 1, retries = []\<rparr>)"
proof (intro conjI impI)
  show "shouldRetry (extractStatusCode err) (error_text err) err \<longleftrightarrow>
      extractStatusCode err = Some 429 \<or>
      str_includes (toLowerCase (error_text err)) ''resource_exhausted'' \<or>
      str_includes (toLowerCase (error_text err)) ''quota'' \<or>
      str_includes (toLowerCase (error_text err)) ''rate limit'' \<or>
      str_includes (toLowerCase (error_text err)) ''network'' \<or>
      str_includes (toLowerCase (error_text err)) ''fetch'' \<or>
      str_includes (toLowerCase (error_text err)) ''timeout'' \<or>
      err_response_status err = Some 429"
    by (rule shouldRetry_iff)
next
  assume "\<not> shouldRetry (extractStatusCode err) (error_text err) err \<and> f n = Rejected err"
  then show "retry_loop opts f random attempt n seen =
        \<lparr>outcome = Inl err, calls = Suc n, retries = seen\<rparr>"
    by (simp add: retry_loop_Throw on_failure_terminal)
next
  assume "\<not> shouldRetry (extractStatusCode err) (error_text err) err \<and> f 0 = Rejected err"
  then show "withRetry f opts random = \<lparr>outcome = Inl err, calls = 1, retries = []\<rparr>"
    by (simp add: withRetry_def retry_loop_Throw on_failure_terminal)
qed

lemma invalid_argument_terminal:
  "\<not> shouldRetry (extractStatusCode (plain_error ''invalid argument''))
       (error_text (plain_error ''invalid argument'')) (plain_error ''invalid argument'')"
proof -
  have s: "extractStatusCode (plain_error ''invalid argument'') = None"
    by (simp add: status_eval)
  have t: "toLowerCase (error_text (plain_error ''invalid argument'')) = ''invalid argument''"
    by (simp add: text_eval)
  have r: "err_response_status (plain_error ''invalid argument'') = None"
    by (simp add: plain_error_def)
  show ?thesis unfolding shouldRetry_iff s t r by simp
qed

text \<open>Claim C3, an instance: \<^verbatim>\<open>new Error("invalid argument")\<close>.\<close>

theorem C3_retryable_classification_witness:
  "\<not> shouldRetry (extractStatusCode (plain_error ''invalid argument''))
       (error_text (plain_error ''invalid argument'')) (plain_error ''invalid argument'') \<and>
   withRetry (\<lambda>n. Rejected (plain_error ''invalid argument'') :: unit settled) no_opts (\<lambda>n. 0) =
     \<lparr>outcome = Inl (plain_error ''invalid argument''), calls = 1, retries = []\<rparr>"
proof -
  note h = invalid_argument_terminal
  have c: "withRetry (\<lambda>n. Rejected (plain_error ''invalid argument'') :: unit settled) no_opts (\<lambda>n. 0) =
     \<lparr>outcome = Inl (plain_error ''invalid argument''), calls = 1, retries = []\<rparr>"
    using C3_retryable_classification[of "plain_error ''invalid argument''"
        "\<lambda>n. Rejected (plain_error ''invalid argument'') :: unit settled" 0 no_opts "\<lambda>n. 0" 0 "[]",
        THEN conjunct2, THEN conjunct2] h
    by simp
  show ?thesis by (rule conjI[OF h c])
qed

text \<open>
  Claim C4: when every call fails with a retryable error, \<^verbatim>\<open>withRetry\<close> calls the
  operation \<^verbatim>\<open>maxRetries + 1\<close> times (3 times for \<^verbatim>\<open>maxRetries = 2\<close>) and then
  rejects with the error of the last call, unchanged; a retryable failure is thrown on
  exactly when the incremented \<^verbatim>\<open>attempt\<close> exceeds \<^verbatim>\<open>maxRetries\<close>, and otherwise
  leads to a retry with the incremented \<^verbatim>\<open>attempt\<close>.
\<close>

theorem C4_retries_exhausted:
  assumes "\<forall>k. f k = Rejected (e k)"
    and "\<forall>k. shouldRetry (extractStatusCode (e k)) (error_text (e k)) (e k)"
  shows "calls (withRetry f opts random) = nat (maxRetries opts) + 1 \<and>
         outcome (withRetry f opts random) = Inl (e (nat (maxRetries opts))) \<and>
         length (retries (withRetry f opts random)) = nat (maxRetries opts) \<and>
         (maxRetries opts = 2 \<longrightarrow> calls (withRetry f opts random) = 3) \<and>
         (on_failure opts attempt r (e k) = Throw \<longleftrightarrow> int attempt + 1 > maxRetries opts) \<and>
         (int attempt + 1 \<le> maxRetries opts \<longrightarrow>
            (\<exists>d. on_failure opts attempt r (e k) = Retry (attempt + 1) d))"
proof -
  from assms have fails: "\<And>k. f k = Rejected (e k)"
    and retryable: "\<And>k. shouldRetry (extractStatusCode (e k)) (error_text (e k)) (e k)"
    by simp_all
  have m: "nat (maxRetries opts) = nat (maxRetries opts) - 0" by simp
  from retry_loop_exhaust[of f e "nat (maxRetries opts)" opts 0 random 0 "[]", OF fails retryable m]
  have loop: "calls (withRetry f opts random) = nat (maxRetries opts) + 1"
    "outcome (withRetry f opts random) = Inl (e (nat (maxRetries opts)))"
    "length (retries (withRetry f opts random)) = nat (maxRetries opts)"
    by (simp_all add: withRetry_def)
  from loop(1) have two: "maxRetries opts = 2 \<longrightarrow> calls (withRetry f opts random) = 3" by simp
  have dec: "on_failure opts attempt r (e k) = Throw \<longleftrightarrow> int attempt + 1 > maxRetries opts"
    "int attempt + 1 \<le> maxRetries opts \<longrightarrow>
       (\<exists>d. on_failure opts attempt r (e k) = Retry (attempt + 1) d)"
    using retryable[of k] by (simp_all add: on_failure_retryable)
  from loop two dec show ?thesis by blast
qed

lemma resource_exhausted_retryable:
  "shouldRetry (extractStatusCode (plain_error ''RESOURCE_EXHAUSTED''))
       (error_text (plain_error ''RESOURCE_EXHAUSTED'')) (plain_error ''RESOURCE_EXHAUSTED'')"
proof -
  have t: "toLowerCase (error_text (plain_error ''RESOURCE_EXHAUSTED'')) = ''resource_exhausted''"
    by (simp add: text_eval)
  show ?thesis unfolding shouldRetry_iff t by simp
qed

text \<open>
  Claim C4, an instance: an operation that always fails with
  \<^verbatim>\<open>new Error("RESOURCE_EXHAUSTED")\<close>, and \<^verbatim>\<open>maxRetries = 2\<close>.
\<close>

theorem C4_retries_exhausted_witness:
  "(\<forall>k. (\<lambda>n. Rejected (plain_error ''RESOURCE_EXHAUSTED'') :: unit settled) k =
         Rejected ((\<lambda>n. plain_error ''RESOURCE_EXHAUSTED'') k)) \<and>
   shouldRetry (extractStatusCode (plain_error ''RESOURCE_EXHAUSTED''))
       (error_text (plain_error ''RESOURCE_EXHAUSTED'')) (plain_error ''RESOURCE_EXHAUSTED'') \<and>
   maxRetries (no_opts\<lparr>opt_maxRetries := Some 2\<rparr>) = 2 \<and>
   calls (withRetry (\<lambda>n. Rejected (plain_error ''RESOURCE_EXHAUSTED'') :: unit settled)
            (no_opts\<lparr>opt_maxRetries := Some 2\<rparr>) (\<lambda>n. 1 / 2)) = 3 \<and>
   outcome (withRetry (\<lambda>n. Rejected (plain_error ''RESOURCE_EXHAUSTED'') :: unit settled)
            (no_opts\<lparr>opt_maxRetries := Some 2\<rparr>) (\<lambda>n. 1 / 2)) =
     Inl (plain_error ''RESOURCE_EXHAUSTED'')"
proof -
  let ?f = "\<lambda>n::nat. Rejected (plain_error ''RESOURCE_EXHAUSTED'') :: unit settled"
  let ?e = "\<lambda>n::nat. plain_error ''RESOURCE_EXHAUSTED''"
  let ?opts = "no_opts\<lparr>opt_maxRetries := Some 2\<rparr>"
  have h1: "\<forall>k. ?f k = Rejected (?e k)" by simp
  have h2: "\<forall>k. shouldRetry (extractStatusCode (?e k)) (error_text (?e k)) (?e k)"
    using resource_exhausted_retryable by simp
  have m: "maxRetries ?opts = 2" by (simp add: maxRetries_def no_opts_def)
  from C4_retries_exhausted[OF h1 h2, where opts = ?opts and random = "\<lambda>n. 1 / 2"]
  have c: "calls (withRetry ?f ?opts (\<lambda>n. 1 / 2)) = 3"
      "outcome (withRetry ?f ?opts (\<lambda>n. 1 / 2)) = Inl (plain_error ''RESOURCE_EXHAUSTED'')"
    using m by simp_all
  show ?thesis using h1 resource_exhausted_retryable m c by blast
qed

lemma parse_14s: "parseRetryDelayMs ''RetryDelay: 14s'' = Some (Num 14000)"
  by (simp add: delay_eval)

lemma parse_30s: "parseRetryDelayMs ''RetryDelay: 30s'' = Some (Num 30000)"
  by (simp add: delay_eval)

text \<open>The message with 400 digits: its number is \<^verbatim>\<open>Infinity\<close>.\<close>

lemma nines_Cons: "nines = CHR ''9'' # replicate 399 (CHR ''9'')"
proof -
  have "replicate (Suc 399) (CHR ''9'') = CHR ''9'' # replicate 399 (CHR ''9'')"
    by (rule replicate_Suc)
  then show ?thesis by (simp add: nines_def)
qed

lemma takeWhile_replicate_append:
  "P c \<Longrightarrow> \<not> P d \<Longrightarrow> takeWhile P (replicate k c @ d # r) = replicate k c"
  by (induction k) auto

lemma dropWhile_replicate_append:
  "P c \<Longrightarrow> \<not> P d \<Longrightarrow> dropWhile P (replicate k c @ d # r) = d # r"
  by (induction k) auto

lemma nines_digits:
  "takeWhile is_digit (nines @ ''s'') = nines" "dropWhile is_digit (nines @ ''s'') = ''s''"
  "dropWhile is_space (nines @ r) = nines @ r" "nines \<noteq> []"
proof -
  have d: "is_digit (CHR ''9'')" "\<not> is_digit (CHR ''s'')" "\<not> is_space (CHR ''9'')"
    by (simp_all add: is_digit_def is_space_def)
  show "takeWhile is_digit (nines @ ''s'') = nines"
    unfolding nines_def using d(1,2) by (rule takeWhile_replicate_append)
  show "dropWhile is_digit (nines @ ''s'') = ''s''"
    unfolding nines_def using d(1,2) by (rule dropWhile_replicate_append)
  show "dropWhile is_space (nines @ r) = nines @ r"
    using d(3) by (simp add: nines_Cons)
  show "nines \<noteq> []" by (simp add: nines_Cons)
qed

lemma digits_value_replicate_9:
  "foldl (\<lambda>n c. 10 * n + (of_char c - 48)) a (replicate k (CHR ''9'')) =
     a * 10 ^ k + (10 ^ k - (1::int))"
  by (induction k arbitrary: a) (simp_all add: algebra_simps)

lemma js_number_nines: "js_number nines = PosInf"
proof -
  have "digits_value nines = 10 ^ 400 - 1"
    unfolding digits_value_def nines_def by (subst digits_value_replicate_9) simp
  moreover have "overflow_bound \<le> real_of_int (10 ^ 400 - 1)"
    by (simp add: overflow_bound_def)
  ultimately show ?thesis by (simp add: js_number_def js_fin_def)
qed

lemma search_here: "s \<noteq> [] \<Longrightarrow> re s = Some g \<Longrightarrow> search re s = Some g"
  by (cases s) simp_all

lemma parse_huge_hint: "parseRetryDelayMs huge_hint = Some PosInf"
proof -
  have "retryDelay_re huge_hint = Some nines"
    by (simp add: retryDelay_re_def huge_hint_def digits_then_def nines_digits is_upper_def
          is_space_def)
  moreover have "huge_hint \<noteq> []" by (simp add: huge_hint_def)
  ultimately have "search retryDelay_re huge_hint = Some nines" by (rule search_here[rotated])
  then show ?thesis by (simp add: parseRetryDelayMs_def js_number_nines)
qed

text \<open>
  Claim C5: the delay before jitter is the larger of the server-advised delay (0 when
  there is none) and the smaller of \<^verbatim>\<open>maxDelayMs\<close> and \<^verbatim>\<open>baseDelayMs * 2^(attempt-1)\<close>,
  in the arithmetic of the language; a server-advised delay of at least \<^verbatim>\<open>maxDelayMs\<close>,
  also an infinite one, is taken as it is (unless the exponential term is \<^verbatim>\<open>NaN\<close>,
  which needs \<^verbatim>\<open>baseDelayMs = 0\<close> and more than 1024 attempts); for the message
  \<^verbatim>\<open>RetryDelay: 14s\<close> with \<^verbatim>\<open>baseDelayMs = 1200\<close> and \<^verbatim>\<open>maxDelayMs = 20000\<close> it is
  the larger of 14000 and the exponential term, so at least 14000; and this is the
  delay that every retry of the loop puts through the jitter.
\<close>

theorem C5_base_delay:
  "base_delay opts msg attempt =
     js_max (case parseRetryDelayMs msg of Some d \<Rightarrow> d | None \<Rightarrow> Num 0)
       (js_min (Num (maxDelayMs opts))
          (js_mul (Num (baseDelayMs opts)) (js_pow2 (attempt - 1)))) \<and>
   (parseRetryDelayMs msg = Some (Num d) \<and> maxDelayMs opts \<le> d \<and>
    (baseDelayMs opts \<noteq> 0 \<or> attempt \<le> 1024) \<longrightarrow>
      base_delay opts msg attempt = Num d) \<and>
   (parseRetryDelayMs msg = Some PosInf \<and> (baseDelayMs opts \<noteq> 0 \<or> attempt \<le> 1024) \<longrightarrow>
      base_delay opts msg attempt = PosInf) \<and>
   (baseDelayMs opts = 1200 \<and> maxDelayMs opts = 20000 \<longrightarrow>
      base_delay opts ''RetryDelay: 14s'' attempt =
        Num (max 14000 (min 20000 (1200 * 2 ^ (attempt - 1)))) \<and>
      (\<exists>x. base_delay opts ''RetryDelay: 14s'' attempt = Num x \<and> 14000 \<le> x)) \<and>
   (shouldRetry (extractStatusCode err) (error_text err) err \<and>
    int attempt + 1 \<le> maxRetries opts \<longrightarrow>
      on_failure opts attempt r err =
        Retry (attempt + 1) (jittered opts (base_delay opts (error_text err) (attempt + 1)) r))"
proof (intro conjI impI)
  show "base_delay opts msg attempt =
     js_max (case parseRetryDelayMs msg of Some d \<Rightarrow> d | None \<Rightarrow> Num 0)
       (js_min (Num (maxDelayMs opts))
          (js_mul (Num (baseDelayMs opts)) (js_pow2 (attempt - 1))))"
    by (simp add: base_delay_def Let_def)
next
  assume a: "parseRetryDelayMs msg = Some (Num d) \<and> maxDelayMs opts \<le> d \<and>
    (baseDelayMs opts \<noteq> 0 \<or> attempt \<le> 1024)"
  then have "baseDelayMs opts \<noteq> 0 \<or> attempt - 1 < 1024" by auto
  then have "js_mul (Num (baseDelayMs opts)) (js_pow2 (attempt - 1)) \<noteq> NaN"
    by (rule exp_term_not_NaN)
  then have "js_max (Num d) (js_min (Num (maxDelayMs opts))
      (js_mul (Num (baseDelayMs opts)) (js_pow2 (attempt - 1)))) = Num d"
    using a by (intro server_delay_wins) simp_all
  then show "base_delay opts msg attempt = Num d"
    using a by (simp add: base_delay_def Let_def)
next
  assume a: "parseRetryDelayMs msg = Some PosInf \<and>
    (baseDelayMs opts \<noteq> 0 \<or> attempt \<le> 1024)"
  then have "baseDelayMs opts \<noteq> 0 \<or> attempt - 1 < 1024" by auto
  then have "js_mul (Num (baseDelayMs opts)) (js_pow2 (attempt - 1)) \<noteq> NaN"
    by (rule exp_term_not_NaN)
  then have "js_max PosInf (js_min (Num (maxDelayMs opts))
      (js_mul (Num (baseDelayMs opts)) (js_pow2 (attempt - 1)))) = PosInf"
    by (rule infinite_delay_wins)
  then show "base_delay opts msg attempt = PosInf"
    using a by (simp add: base_delay_def Let_def)
next
  assume a: "baseDelayMs opts = 1200 \<and> maxDelayMs opts = 20000"
  have "(20000::real) < overflow_bound"
    using overflow_bound_large by (rule less_trans[rotated]) simp
  then have "js_min (Num 20000) (js_mul (Num 1200) (js_pow2 (attempt - 1))) =
      Num (min 20000 (1200 * 2 ^ (attempt - 1)))"
    by (intro exp_term_capped) simp_all
  then show eq: "base_delay opts ''RetryDelay: 14s'' attempt =
      Num (max 14000 (min 20000 (1200 * 2 ^ (attempt - 1))))"
    using a by (simp add: base_delay_def Let_def parse_14s)
  then show "\<exists>x. base_delay opts ''RetryDelay: 14s'' attempt = Num x \<and> 14000 \<le> x"
    by simp
next
  assume "shouldRetry (extractStatusCode err) (error_text err) err \<and>
    int attempt + 1 \<le> maxRetries opts"
  then show "on_failure opts attempt r err =
        Retry (attempt + 1) (jittered opts (base_delay opts (error_text err) (attempt + 1)) r)"
    by (simp add: on_failure_retryable)
qed

text \<open>
  Claim C5, an instance: the default options, a server-advised delay of 30 s, above
  \<^verbatim>\<open>maxDelayMs\<close>, one of 400 digits, and a 429 error whose message is
  \<^verbatim>\<open>RetryDelay: 14s\<close>.
\<close>

theorem C5_base_delay_witness:
  "parseRetryDelayMs ''RetryDelay: 30s'' = Some (Num 30000) \<and>
   maxDelayMs no_opts \<le> 30000 \<and>
   base_delay no_opts ''RetryDelay: 30s'' 1 = Num 30000 \<and>
   parseRetryDelayMs huge_hint = Some PosInf \<and>
   base_delay no_opts huge_hint 1 = PosInf \<and>
   baseDelayMs no_opts = 1200 \<and> maxDelayMs no_opts = 20000 \<and>
   base_delay no_opts ''RetryDelay: 14s'' 1 = Num 14000 \<and>
   shouldRetry (extractStatusCode advised_error) (error_text advised_error) advised_error \<and>
   int 0 + 1 \<le> maxRetries no_opts \<and>
   on_failure no_opts 0 (1 / 2) advised_error = Retry 1 (Num 14000)"
proof -
  have p: "parseRetryDelayMs ''RetryDelay: 30s'' = Some (Num 30000)" by (rule parse_30s)
  have ph: "parseRetryDelayMs huge_hint = Some PosInf" by (rule parse_huge_hint)
  have b: "baseDelayMs no_opts = 1200" and m: "maxDelayMs no_opts = 20000"
    and j: "jitterRatio no_opts = 0.25" and n: "maxRetries no_opts = 5"
    by (simp_all add: baseDelayMs_def maxDelayMs_def jitterRatio_def maxRetries_def no_opts_def)
  have le: "maxDelayMs no_opts \<le> 30000" by (simp add: m)
  have nz: "baseDelayMs no_opts \<noteq> 0 \<or> (1::nat) \<le> 1024" by simp
  have s: "shouldRetry (extractStatusCode advised_error) (error_text advised_error) advised_error"
    by (simp add: shouldRetry_iff extractStatusCode_def advised_error_def)
  have a: "int 0 + 1 \<le> maxRetries no_opts" by (simp add: n)
  have t: "error_text advised_error = ''RetryDelay: 14s''"
    by (simp add: error_text_def advised_error_def)
  note uncapped = C5_base_delay[where opts = no_opts and msg = "''RetryDelay: 30s''"
      and attempt = 1 and d = 30000, THEN conjunct2, THEN conjunct1]
  note infinite = C5_base_delay[where opts = no_opts and msg = huge_hint
      and attempt = 1, THEN conjunct2, THEN conjunct2, THEN conjunct1]
  note example = C5_base_delay[where opts = no_opts and attempt = 1,
      THEN conjunct2, THEN conjunct2, THEN conjunct2, THEN conjunct1]
  note in_loop = C5_base_delay[where opts = no_opts and attempt = 0 and err = advised_error
      and r = "1 / 2", THEN conjunct2, THEN conjunct2, THEN conjunct2, THEN conjunct2]
  have c1: "base_delay no_opts ''RetryDelay: 30s'' 1 = Num 30000"
    using uncapped p le nz by blast
  have c0: "base_delay no_opts huge_hint 1 = PosInf"
    using infinite ph nz by blast
  have c2: "base_delay no_opts ''RetryDelay: 14s'' 1 = Num 14000"
    using example b m by simp
  have jt: "jittered no_opts (Num 14000) (1 / 2) = Num 14000"
    by (simp add: jittered_def j js_fin_small)
  have c3: "on_failure no_opts 0 (1 / 2) advised_error = Retry 1 (Num 14000)"
    using in_loop s a t c2 jt by simp
  show ?thesis using p le c1 ph c0 b m c2 s a c3 by blast
qed

text \<open>
  Claim C8: whatever \<^verbatim>\<open>Math.random()\<close> returns, the final delay passed to the observer
  and slept is a whole number of at least 250. Line 105 floors and rounds the delay,
  but not when the server-advised delay is too large for a double: for a 429 error
  whose message is \<^verbatim>\<open>RetryDelay: \<close> followed by 400 digits and \<^verbatim>\<open>s\<close>, the delay before
  jitter is \<^verbatim>\<open>Infinity\<close>, and the final delay is \<^verbatim>\<open>NaN\<close> when \<^verbatim>\<open>Math.random()\<close>
  returns 0 (\<^verbatim>\<open>Infinity\<close> plus \<^verbatim>\<open>-Infinity\<close>) and \<^verbatim>\<open>Infinity\<close> when it returns 3/4.
\<close>

theorem C8_overflowing_hint_delay:
  "on_failure no_opts 0 0 overflow_error = Retry 1 NaN \<and>
   on_failure no_opts 0 (3 / 4) overflow_error = Retry 1 PosInf \<and>
   retries (withRetry (\<lambda>n. if n = 0 then Rejected overflow_error else Fulfilled ())
              no_opts (\<lambda>n. 0)) = [(1, NaN, overflow_error)] \<and>
   \<not> whole_at_least_250 NaN \<and> \<not> whole_at_least_250 PosInf"
proof -
  have j: "jitterRatio no_opts = 0.25" and n: "maxRetries no_opts = 5"
    by (simp_all add: jitterRatio_def maxRetries_def no_opts_def)
  have s: "shouldRetry (extractStatusCode overflow_error) (error_text overflow_error)
      overflow_error"
    by (simp add: shouldRetry_iff extractStatusCode_def overflow_error_def)
  have t: "error_text overflow_error = huge_hint"
    by (simp add: error_text_def overflow_error_def)
  have nz: "baseDelayMs no_opts \<noteq> 0 \<or> Suc 0 \<le> 1024" by simp
  have "js_mul (Num (baseDelayMs no_opts)) (js_pow2 (Suc 0 - 1)) \<noteq> NaN"
    by (rule exp_term_not_NaN) simp
  then have "js_max PosInf (js_min (Num (maxDelayMs no_opts))
      (js_mul (Num (baseDelayMs no_opts)) (js_pow2 (Suc 0 - 1)))) = PosInf"
    by (rule infinite_delay_wins)
  then have bd: "base_delay no_opts huge_hint (Suc 0) = PosInf"
    by (simp add: base_delay_def Let_def parse_huge_hint)
  have j0: "jittered no_opts PosInf 0 = NaN" and j1: "jittered no_opts PosInf (3 / 4) = PosInf"
    by (simp_all add: jittered_def j)
  have o0: "on_failure no_opts 0 0 overflow_error = Retry 1 NaN"
    using s by (simp add: on_failure_retryable n t bd j0)
  have o1: "on_failure no_opts 0 (3 / 4) overflow_error = Retry 1 PosInf"
    using s by (simp add: on_failure_retryable n t bd j1)
  let ?f = "\<lambda>n::nat. if n = 0 then Rejected overflow_error else Fulfilled ()"
  have "retry_loop no_opts ?f (\<lambda>n. 0) 0 0 [] =
      retry_loop no_opts ?f (\<lambda>n. 0) 1 (Suc 0) ([] @ [(1, NaN, overflow_error)])"
    by (rule retry_loop_Retry) (simp_all add: o0)
  also have "\<dots> = \<lparr>outcome = Inr (), calls = Suc (Suc 0),
      retries = [] @ [(1, NaN, overflow_error)]\<rparr>"
    by (rule retry_loop_Fulfilled) simp
  finally have r: "retries (withRetry ?f no_opts (\<lambda>n. 0)) = [(1, NaN, overflow_error)]"
    by (simp add: withRetry_def)
  show ?thesis using o0 o1 r by simp
qed

text \<open>
  Where nothing overflows the floor holds: for a delay before jitter of at most
  \<open>2 ^ 1000\<close> in size, a jitter ratio of at most 1 in size and a random value from 0 to
  1, the final delay is a whole number of at least 250 (lemma \<open>jittered_in_range\<close>);
  and every delay the loop passes on is such a number, \<^verbatim>\<open>NaN\<close> or \<^verbatim>\<open>Infinity\<close>.
\<close>

lemma retry_delays_shape:
  "\<forall>(attempt, d, err) \<in> set (retries (withRetry f opts rnd)).
     d = NaN \<or> d = PosInf \<or> whole_at_least_250 d"
proof -
  have "\<forall>(a, d, e) \<in> set ([] :: retry_info list).
      d = NaN \<or> d = PosInf \<or> whole_at_least_250 d" by simp
  then have "\<forall>(a, d, e) \<in> set (retries (retry_loop opts f rnd 0 0 [])).
      d = NaN \<or> d = PosInf \<or> whole_at_least_250 d"
    by (rule retry_loop_delays)
  then show ?thesis by (simp add: withRetry_def)
qed

text \<open>
  Claim C9: when the extracted status is 500, 502, 503 or 504 (from \<^verbatim>\<open>status\<close>,
  \<^verbatim>\<open>code\<close>, the nested response status or the message), the lower-cased message has
  none of the six substrings and the nested response status is not 429, the failure is
  not retryable and \<^verbatim>\<open>withRetry\<close> throws it on at once.
\<close>

theorem C9_server_errors_not_retryable:
  assumes "extractStatusCode err = Some s" and "s \<in> {500, 502, 503, 504}"
    and "\<not> (str_includes (toLowerCase (error_text err)) ''resource_exhausted'' \<or>
           str_includes (toLowerCase (error_text err)) ''quota'' \<or>
           str_includes (toLowerCase (error_text err)) ''rate limit'' \<or>
           str_includes (toLowerCase (error_text err)) ''network'' \<or>
           str_includes (toLowerCase (error_text err)) ''fetch'' \<or>
           str_includes (toLowerCase (error_text err)) ''timeout'')"
    and "err_response_status err \<noteq> Some 429"
  shows "\<not> shouldRetry (extractStatusCode err) (error_text err) err \<and>
         on_failure opts attempt r err = Throw \<and>
         (f n = Rejected err \<longrightarrow>
            retry_loop opts f random attempt n seen =
              \<lparr>outcome = Inl err, calls = Suc n, retries = seen\<rparr>) \<and>
         (f 0 = Rejected err \<longrightarrow>
            withRetry f opts random = \<lparr>outcome = Inl err, calls = 1, retries = []\<rparr>)"
proof -
  from assms(1,2) have "extractStatusCode err \<noteq> Some 429" by auto
  with assms(3,4) have no: "\<not> shouldRetry (extractStatusCode err) (error_text err) err"
    unfolding shouldRetry_iff by blast
  then have t: "on_failure opts attempt r' err = Throw" for attempt r'
    by (rule on_failure_terminal)
  have "retry_loop opts f random attempt n seen =
      \<lparr>outcome = Inl err, calls = Suc n, retries = seen\<rparr>" if "f n = Rejected err"
    using that t by (rule retry_loop_Throw)
  moreover have "withRetry f opts random = \<lparr>outcome = Inl err, calls = 1, retries = []\<rparr>"
    if "f 0 = Rejected err"
    using that t by (simp add: withRetry_def retry_loop_Throw)
  ultimately show ?thesis using no t by blast
qed

text \<open>
  Claim C9, an instance: \<^verbatim>\<open>new Error("Server error (500)")\<close>, whose status 500 is
  found in the message.
\<close>

theorem C9_server_errors_not_retryable_witness:
  "extractStatusCode server_error = Some 500 \<and> (500::int) \<in> {500, 502, 503, 504} \<and>
   toLowerCase (error_text server_error) = ''server error (500)'' \<and>
   err_response_status server_error \<noteq> Some 429 \<and>
   \<not> shouldRetry (extractStatusCode server_error) (error_text server_error) server_error \<and>
   withRetry (\<lambda>n. Rejected server_error :: unit settled) no_opts (\<lambda>n. 0) =
     \<lparr>outcome = Inl server_error, calls = 1, retries = []\<rparr>"
proof -
  have s: "extractStatusCode server_error = Some 500"
    by (simp add: status_eval server_error_def)
  have m: "(500::int) \<in> {500, 502, 503, 504}" by simp
  have t: "toLowerCase (error_text server_error) = ''server error (500)''"
    by (simp add: text_eval server_error_def)
  have i: "\<not> (str_includes (toLowerCase (error_text server_error)) ''resource_exhausted'' \<or>
           str_includes (toLowerCase (error_text server_error)) ''quota'' \<or>
           str_includes (toLowerCase (error_text server_error)) ''rate limit'' \<or>
           str_includes (toLowerCase (error_text server_error)) ''network'' \<or>
           str_includes (toLowerCase (error_text server_error)) ''fetch'' \<or>
           str_includes (toLowerCase (error_text server_error)) ''timeout'')"
    unfolding t by simp
  have r: "err_response_status server_error \<noteq> Some 429"
    by (simp add: server_error_def plain_error_def)
  note inst = C9_server_errors_not_retryable[OF s m i r,
      where f = "\<lambda>n. Rejected server_error :: unit settled" and opts = no_opts
        and random = "\<lambda>n. 0"]
  have c1: "\<not> shouldRetry (extractStatusCode server_error) (error_text server_error) server_error"
    using inst[THEN conjunct1] .
  have c2: "withRetry (\<lambda>n. Rejected server_error :: unit settled) no_opts (\<lambda>n. 0) =
     \<lparr>outcome = Inl server_error, calls = 1, retries = []\<rparr>"
    using inst[THEN conjunct2, THEN conjunct2, THEN conjunct2] by simp
  show ?thesis using s m t r c1 c2 by blast
qed

end
